theory Spec2Isabelle
  imports Main
begin

section \<open>JavaScript values and objects\<close>

text \<open>
  The add pipeline of \<^verbatim>\<open>packages/ipfs/src/core/components/add-all/index.js\<close> reads
  its options with JavaScript's coercions: truthiness (\<^verbatim>\<open>if (opts.trickle)\<close>), strict
  equality (\<^verbatim>\<open>opts.cidVersion === 1\<close>, \<^verbatim>\<open>opts.preload !== false\<close>) and the
  loose test against \<^verbatim>\<open>null\<close> (\<^verbatim>\<open>opts.pin == null\<close>). Option values are therefore
  modelled as tagged JavaScript values and an options object as a finite map from
  property names to values. Option numbers are integers plus \<^verbatim>\<open>Infinity\<close> (the only
  non-integer the code writes); a function value is named by an identifier;
  \<open>JWrappedProgress prog\<close> is the closure created at lines 88-91 around the
  caller's callback \<open>prog\<close>.
\<close>

datatype jsval =
    JUndefined
  | JNull
  | JBool bool
  | JNum int
  | JInfinity
  | JStr string
  | JFun string
  | JWrappedProgress jsval

fun truthy :: "jsval \<Rightarrow> bool" where
  "truthy JUndefined = False"
| "truthy JNull = False"
| "truthy (JBool b) = b"
| "truthy (JNum n) = (n \<noteq> 0)"
| "truthy JInfinity = True"
| "truthy (JStr s) = (s \<noteq> [])"
| "truthy (JFun f) = True"
| "truthy (JWrappedProgress p) = True"

text \<open>\<^verbatim>\<open>v == null\<close> holds for \<^verbatim>\<open>null\<close> and \<^verbatim>\<open>undefined\<close> only.\<close>

fun nullish :: "jsval \<Rightarrow> bool" where
  "nullish JUndefined = True"
| "nullish JNull = True"
| "nullish v = False"

type_synonym jsobj = "string \<rightharpoonup> jsval"

text \<open>Reading a property that the object does not have gives \<^verbatim>\<open>undefined\<close>.\<close>

definition get :: "jsobj \<Rightarrow> string \<Rightarrow> jsval" where
  "get obj k = (case obj k of None \<Rightarrow> JUndefined | Some v \<Rightarrow> v)"

datatype error = Error string

section \<open>The running total, a JavaScript number\<close>

text \<open>
  \<^verbatim>\<open>total += bytes\<close> (line 89) adds two doubles. Byte counts are lengths, so the
  values are non-negative integers: a double holds every integer up to \<open>2 ^ 53\<close>; above,
  its neighbours are \<open>2 ^ k\<close> apart from \<open>2 ^ (52 + k)\<close> on, a sum is rounded to the
  nearest of them, to the one with the even significand when it lies half way, and to
  \<^verbatim>\<open>Infinity\<close> from \<open>2 ^ 1024\<close> on.
\<close>

datatype jsnum = JsNum nat | JsInfinity

text \<open>The distance between the doubles around \<open>n\<close>.\<close>

function ulp :: "nat \<Rightarrow> nat" where
  "ulp n = (if n < 2 ^ 53 then 1 else 2 * ulp (n div 2))"
  by pat_completeness auto
termination
  by (relation "measure (\<lambda>n. n)") auto

definition to_double :: "nat \<Rightarrow> jsnum" where
  "to_double n =
     (let q = ulp n; d = n div q; r = n mod q;
          m = (if 2 * r < q then d else if q < 2 * r then d + 1
               else if even d then d else d + 1)
      in if 2 ^ 1024 \<le> m * q then JsInfinity else JsNum (m * q))"

text \<open>\<^verbatim>\<open>total + bytes\<close>, for a byte count that is itself a double.\<close>

fun js_add :: "jsnum \<Rightarrow> nat \<Rightarrow> jsnum" where
  "js_add (JsNum a) b = to_double (a + b)"
| "js_add JsInfinity b = JsInfinity"

section \<open>CIDs, imported nodes and output entries\<close>

text \<open>
  A CID of the \<^verbatim>\<open>cids\<close> package is a version, a codec and a multihash;
  \<^verbatim>\<open>toV1()\<close> builds the CID with version 1 and the same codec and multihash.
  The string form (a multibase encoding) is left to the environment.
\<close>

record cid =
  cid_version :: nat
  cid_codec :: string
  cid_multihash :: "nat list"

definition toV1 :: "cid \<Rightarrow> cid" where
  "toV1 c = c\<lparr>cid_version := 1\<rparr>"

record unixfs =
  unixfs_mode :: "nat option"
  unixfs_mtime :: "(int \<times> nat) option"

text \<open>What the importer yields: \<^verbatim>\<open>path\<close> and \<^verbatim>\<open>unixfs\<close> may be undefined.\<close>

record imported_node =
  node_cid :: cid
  node_path :: "string option"
  node_size :: nat
  node_unixfs :: "unixfs option"

text \<open>The \<^verbatim>\<open>UnixFSEntry\<close> that \<^verbatim>\<open>transformFile\<close> yields (lines 132-138).\<close>

record entry =
  entry_path :: string
  entry_cid :: cid
  entry_size :: nat
  entry_mode :: "nat option"
  entry_mtime :: "(int \<times> nat) option"

record pin_options =
  pin_preload :: bool
  pin_lock :: bool

section \<open>Collaborators\<close>

text \<open>
  A call of a collaborator either throws, or returns a promise that later resolves
  or rejects. \<^verbatim>\<open>await f(x)\<close> turns both a throw and a rejection into an exception
  at the call site; a call that is not awaited only sees the throw.
\<close>

datatype call_outcome = Resolves | Rejects error | Throws error

text \<open>
  What the importer does when it is pulled, in order: it reports the byte length of
  a chunk to \<^verbatim>\<open>options.progress\<close>, yields a node, or throws (its own failure, or
  one of the normalised input it consumes).
\<close>

datatype importer_action = Chunk nat | Node imported_node | Throw error

text \<open>
  The arguments of the factory (line 38), the value computed at line 39 and the
  imported modules. The helper
  \<^verbatim>\<open>parseChunkerString\<close> (\<^verbatim>\<open>./utils\<close>), \<^verbatim>\<open>normaliseAddInput\<close> and the
  importer are not part of the file and are parameters: \<^verbatim>\<open>parseChunkerString\<close>
  returns an object of options or throws; \<^verbatim>\<open>normaliseAddInput\<close> is called while the
  pipeline is built and returns an iterable or throws; the importer is a generator, so
  calling it runs nothing, and its behaviour is the list of its actions.
  \<open>readLock\<close> is the outcome of \<^verbatim>\<open>await gcLock.readLock()\<close>: the lock is granted
  (\<open>None\<close>) or the call fails; the release function it gives is taken to return.
  \<open>preload\<close> and \<open>pin_add\<close> give the outcome of a call for each argument, and
  \<open>call_prog\<close> says for the caller's functions whether a call with a number returns
  (\<open>None\<close>) or throws.
\<close>

record ('src, 'items) env =
  isShardingEnabled :: jsval
  parseChunkerString :: "jsval \<Rightarrow> error + jsobj"
  normaliseAddInput :: "'src \<Rightarrow> error + 'items"
  importer :: "'items \<Rightarrow> jsobj \<Rightarrow> importer_action list"
  readLock :: "error option"
  preload :: "cid \<Rightarrow> call_outcome"
  pin_add :: "cid \<Rightarrow> pin_options \<Rightarrow> call_outcome"
  call_prog :: "string \<Rightarrow> jsnum \<Rightarrow> error option"
  cid_toString :: "cid \<Rightarrow> string"

section \<open>Option finalisation (lines 64-92)\<close>

text \<open>The object literal of lines 66-71: later properties win.\<close>

definition merge_options :: "('src, 'items) env \<Rightarrow> jsobj \<Rightarrow> jsobj \<Rightarrow> jsobj" where
  "merge_options env options chunker =
     [''shardSplitThreshold'' \<mapsto>
        (if truthy (isShardingEnabled env) then JNum 1000 else JInfinity)]
     ++ options
     ++ [''strategy'' \<mapsto> JStr ''balanced'']
     ++ chunker"

text \<open>Lines 74-76.\<close>

definition force_cid_version :: "jsobj \<Rightarrow> jsobj" where
  "force_cid_version opts =
     (if truthy (get opts ''hashAlg'') \<and> get opts ''hashAlg'' \<noteq> JStr ''sha2-256''
         \<and> get opts ''cidVersion'' \<noteq> JNum 1
      then opts(''cidVersion'' \<mapsto> JNum 1) else opts)"

text \<open>Lines 78-82.\<close>

definition apply_trickle :: "jsobj \<Rightarrow> jsobj" where
  "apply_trickle opts =
     (if truthy (get opts ''trickle'') then opts(''strategy'' \<mapsto> JStr ''trickle'') else opts)
       (''trickle'' := None)"

text \<open>Lines 84-92; the closure's \<^verbatim>\<open>total\<close> starts at 0 and lives in the generator's state.\<close>

definition wrap_progress :: "jsobj \<Rightarrow> jsobj" where
  "wrap_progress opts =
     (if truthy (get opts ''progress'')
      then opts(''progress'' \<mapsto> JWrappedProgress (get opts ''progress'')) else opts)"

text \<open>Line 64: \<^verbatim>\<open>options || {}\<close>, for a call without options.\<close>

definition or_empty :: "jsobj option \<Rightarrow> jsobj" where
  "or_empty options = (case options of None \<Rightarrow> Map.empty | Some obj \<Rightarrow> obj)"

definition finalize_options :: "('src, 'items) env \<Rightarrow> jsobj option \<Rightarrow> error + jsobj" where
  "finalize_options env options0 =
     (let options = or_empty options0 in
      case parseChunkerString env (get options ''chunker'') of
        Inl e \<Rightarrow> Inl e
      | Inr chunker \<Rightarrow>
          Inr (wrap_progress (apply_trickle (force_cid_version
                 (merge_options env options chunker)))))"

text \<open>The options the importer is called with (lines 96-99).\<close>

definition importer_options :: "jsobj \<Rightarrow> jsobj" where
  "importer_options opts = opts(''pin'' \<mapsto> JBool False)"

section \<open>Iterators and the three stages\<close>

text \<open>
  An async iterator is a state with a \<^verbatim>\<open>next()\<close> that performs effects and returns
  a value, the end of the sequence, or a rejection. Effects are recorded as a trace of
  events; \<open>Yield\<close> and \<open>Raise\<close> are what the consumer of \<^verbatim>\<open>addAll\<close> observes.
\<close>

datatype 'a iter_result = Value 'a | Finished | Rejected error

datatype event =
    ReadLock
  | ReleaseLock
  | Preload cid
  | PinAdd cid pin_options
  | Callback jsval jsnum
  | Yield entry
  | Raise error

type_synonym ('s, 'a) iterator = "'s \<Rightarrow> event list \<times> 'a iter_result \<times> 's"

text \<open>
  The importer calls \<^verbatim>\<open>options.progress(bytes)\<close> for a chunk. \<^verbatim>\<open>addAll\<close> passes
  it the wrapper of lines 88-91 or the caller's falsy value. The wrapper adds \<open>bytes\<close> to
  \<^verbatim>\<open>total\<close> and calls \<^verbatim>\<open>prog(total)\<close>: that is a \<^verbatim>\<open>TypeError\<close> when the
  caller's truthy value is not a function, and the caller's function may throw. A
  wrapper is never the caller's value, it is made at line 88 only. With a falsy value
  the importer has nothing to call.
\<close>

fun call_progress ::
  "('src, 'items) env \<Rightarrow> jsval \<Rightarrow> jsnum \<Rightarrow> nat \<Rightarrow> event list \<times> jsnum \<times> error option" where
  "call_progress env (JWrappedProgress (JFun f)) tot bytes =
     ([Callback (JFun f) (js_add tot bytes)], js_add tot bytes,
      call_prog env f (js_add tot bytes))"
| "call_progress env (JWrappedProgress prog) tot bytes =
     ([], js_add tot bytes, Some (Error ''TypeError: prog is not a function''))"
| "call_progress env v tot bytes = ([], tot, None)"

text \<open>
  The importer's generator: its state is the closure's total and the actions left. An
  exception of the progress call leaves the importer, which is then done.
\<close>

fun importer_next ::
  "('src, 'items) env \<Rightarrow> jsobj \<Rightarrow> (jsnum \<times> importer_action list, imported_node) iterator" where
  "importer_next env opts (tot, []) = ([], Finished, (tot, []))"
| "importer_next env opts (tot, Chunk b # acts) =
     (case call_progress env (get opts ''progress'') tot b of
        (ev, tot', Some e) \<Rightarrow> (ev, Rejected e, (tot', []))
      | (ev, tot', None) \<Rightarrow>
          (case importer_next env opts (tot', acts) of (evs, r, s) \<Rightarrow> (ev @ evs, r, s)))"
| "importer_next env opts (tot, Node n # acts) = ([], Value n, (tot, acts))"
| "importer_next env opts (tot, Throw e # acts) = ([], Rejected e, (tot, []))"

text \<open>\<^verbatim>\<open>!file.path\<close>: the path is undefined or the empty string.\<close>

definition no_path :: "imported_node \<Rightarrow> bool" where
  "no_path file = (case node_path file of None \<Rightarrow> True | Some p \<Rightarrow> p = [])"

text \<open>The body of the loop of \<^verbatim>\<open>transformFile\<close> (lines 120-138).\<close>

definition transform_entry :: "('src, 'items) env \<Rightarrow> jsobj \<Rightarrow> imported_node \<Rightarrow> entry" where
  "transform_entry env opts file =
     (let cid = (if get opts ''cidVersion'' = JNum 1 then toV1 (node_cid file) else node_cid file);
          path = (case node_path file of
                    None \<Rightarrow> cid_toString env cid
                  | Some p \<Rightarrow> if p \<noteq> [] then p else cid_toString env cid);
          path = (if truthy (get opts ''wrapWithDirectory'') \<and> no_path file then [] else path)
      in \<lparr>entry_path = path, entry_cid = cid, entry_size = node_size file,
          entry_mode = (case node_unixfs file of None \<Rightarrow> None | Some u \<Rightarrow> unixfs_mode u),
          entry_mtime = (case node_unixfs file of None \<Rightarrow> None | Some u \<Rightarrow> unixfs_mtime u)\<rparr>)"

definition transformFile ::
  "('src, 'items) env \<Rightarrow> jsobj \<Rightarrow> ('s, imported_node) iterator \<Rightarrow> ('s, entry) iterator" where
  "transformFile env opts source s =
     (case source s of
        (ev, Value file, s') \<Rightarrow> (ev, Value (transform_entry env opts file), s')
      | (ev, Finished, s') \<Rightarrow> (ev, Finished, s')
      | (ev, Rejected e, s') \<Rightarrow> (ev, Rejected e, s'))"

text \<open>Lines 146-150.\<close>

definition isRootFile :: "jsobj \<Rightarrow> entry \<Rightarrow> bool" where
  "isRootFile opts file =
     (if entry_path file = [] \<or> truthy (get opts ''wrapWithDirectory'')
      then entry_path file = []
      else CHR ''/'' \<notin> set (entry_path file))"

definition shouldPreload :: "jsobj \<Rightarrow> entry \<Rightarrow> bool" where
  "shouldPreload opts file =
     (isRootFile opts file \<and> \<not> truthy (get opts ''onlyHash'')
        \<and> get opts ''preload'' \<noteq> JBool False)"

text \<open>
  \<^verbatim>\<open>preloadFile\<close> (lines 143-159): the call is not awaited and not guarded, so the
  promise it returns is dropped and only a throw of the call itself leaves the loop.
\<close>

definition preloadFile ::
  "('src, 'items) env \<Rightarrow> jsobj \<Rightarrow> ('s, entry) iterator \<Rightarrow> ('s, entry) iterator" where
  "preloadFile env opts source s =
     (case source s of
        (ev, Value file, s') \<Rightarrow>
          (if shouldPreload opts file
           then (case preload env (entry_cid file) of
                   Throws e \<Rightarrow> (ev @ [Preload (entry_cid file)], Rejected e, s')
                 | Resolves \<Rightarrow> (ev @ [Preload (entry_cid file)], Value file, s')
                 | Rejects e \<Rightarrow> (ev @ [Preload (entry_cid file)], Value file, s'))
           else (ev, Value file, s'))
      | (ev, Finished, s') \<Rightarrow> (ev, Finished, s')
      | (ev, Rejected e, s') \<Rightarrow> (ev, Rejected e, s'))"

text \<open>Lines 166-167.\<close>

definition isRootDir :: "entry \<Rightarrow> bool" where
  "isRootDir file = (CHR ''/'' \<notin> set (entry_path file))"

definition shouldPin :: "jsobj \<Rightarrow> entry \<Rightarrow> bool" where
  "shouldPin opts file =
     ((if nullish (get opts ''pin'') then True else truthy (get opts ''pin''))
        \<and> isRootDir file
        \<and> \<not> truthy (get opts ''onlyHash''))"

text \<open>\<^verbatim>\<open>pinFile\<close> (lines 161-181): the call is awaited.\<close>

definition pinFile ::
  "('src, 'items) env \<Rightarrow> jsobj \<Rightarrow> ('s, entry) iterator \<Rightarrow> ('s, entry) iterator" where
  "pinFile env opts source s =
     (case source s of
        (ev, Value file, s') \<Rightarrow>
          (if shouldPin opts file
           then (let po = \<lparr>pin_preload = False, pin_lock = False\<rparr> in
                 case pin_add env (entry_cid file) po of
                   Resolves \<Rightarrow> (ev @ [PinAdd (entry_cid file) po], Value file, s')
                 | Rejects e \<Rightarrow> (ev @ [PinAdd (entry_cid file) po], Rejected e, s')
                 | Throws e \<Rightarrow> (ev @ [PinAdd (entry_cid file) po], Rejected e, s'))
           else (ev, Value file, s'))
      | (ev, Finished, s') \<Rightarrow> (ev, Finished, s')
      | (ev, Rejected e, s') \<Rightarrow> (ev, Rejected e, s'))"

text \<open>
  The pipeline of lines 94-103, from the importer's generator on; the importer runs with
  \<^verbatim>\<open>{...opts, pin: false}\<close>, the stages with \<^verbatim>\<open>opts\<close>.
\<close>

definition pipeline ::
  "('src, 'items) env \<Rightarrow> jsobj \<Rightarrow> (jsnum \<times> importer_action list, entry) iterator" where
  "pipeline env opts =
     pinFile env opts (preloadFile env opts
       (transformFile env opts (importer_next env (importer_options opts))))"

section \<open>The generator \<^verbatim>\<open>addAll\<close>\<close>

text \<open>
  An async generator does not run before its first \<^verbatim>\<open>next()\<close>. \<^verbatim>\<open>addAll\<close> is
  then either not started, suspended at the \<^verbatim>\<open>yield *\<close> of line 108 (inside the
  \<^verbatim>\<open>try\<close>, holding the lock), or completed. The wrapper \<^verbatim>\<open>withTimeoutOption\<close> of
  line 114 is not part of the file; what follows is \<^verbatim>\<open>addAll\<close> itself.
\<close>

datatype 'src gen =
    Start 'src "jsobj option"
  | Suspended jsobj jsnum "importer_action list"
  | Completed

text \<open>
  Lines 64-105, up to the \<^verbatim>\<open>try\<close>: the options, the call of the normaliser while the
  pipeline is built, then the lock. Each can fail, and then nothing later runs.
\<close>

definition addAll_setup ::
  "('src, 'items) env \<Rightarrow> 'src \<Rightarrow> jsobj option \<Rightarrow> error + jsobj \<times> importer_action list" where
  "addAll_setup env source options =
     (case finalize_options env options of
        Inl e \<Rightarrow> Inl e
      | Inr opts \<Rightarrow>
          (case normaliseAddInput env source of
             Inl e \<Rightarrow> Inl e
           | Inr items \<Rightarrow>
               (case readLock env of
                  Some e \<Rightarrow> Inl e
                | None \<Rightarrow> Inr (opts, importer env items (importer_options opts)))))"

text \<open>
  One step of \<^verbatim>\<open>yield * iterator\<close> inside \<^verbatim>\<open>try ... finally\<close> (lines 107-111): an
  entry is passed on and the generator stays suspended; the end of the pipeline and an
  exception both run the \<^verbatim>\<open>finally\<close> block.
\<close>

definition pull ::
  "('src, 'items) env \<Rightarrow> jsobj \<Rightarrow> jsnum \<times> importer_action list \<Rightarrow> event list \<times> 'src gen" where
  "pull env opts s =
     (case pipeline env opts s of
        (ev, Value file, (tot, acts)) \<Rightarrow> (ev @ [Yield file], Suspended opts tot acts)
      | (ev, Finished, s') \<Rightarrow> (ev @ [ReleaseLock], Completed)
      | (ev, Rejected e, s') \<Rightarrow> (ev @ [ReleaseLock, Raise e], Completed))"

fun addAll_next :: "('src, 'items) env \<Rightarrow> 'src gen \<Rightarrow> event list \<times> 'src gen" where
  "addAll_next env (Start source options) =
     (case addAll_setup env source options of
        Inl e \<Rightarrow> ([Raise e], Completed)
      | Inr (opts, acts) \<Rightarrow>
          (case pull env opts (JsNum 0, acts) of (ev, g) \<Rightarrow> (ReadLock # ev, g)))"
| "addAll_next env (Suspended opts tot acts) = pull env opts (tot, acts)"
| "addAll_next env Completed = ([], Completed)"

text \<open>
  \<^verbatim>\<open>return()\<close>, which \<^verbatim>\<open>for await\<close> calls when its body breaks: a generator that
  has not started completes without running; one suspended at line 108 closes the
  pipeline (the stages have no \<^verbatim>\<open>finally\<close> of their own) and runs line 110.
\<close>

fun addAll_return :: "('src, 'items) env \<Rightarrow> 'src gen \<Rightarrow> event list \<times> 'src gen" where
  "addAll_return env (Start source options) = ([], Completed)"
| "addAll_return env (Suspended opts tot acts) = ([ReleaseLock], Completed)"
| "addAll_return env Completed = ([], Completed)"

datatype command = Next | Return

fun exec :: "('src, 'items) env \<Rightarrow> 'src gen \<Rightarrow> command \<Rightarrow> event list \<times> 'src gen" where
  "exec env g Next = addAll_next env g"
| "exec env g Return = addAll_return env g"

text \<open>A consumer is the list of the calls it makes.\<close>

fun run :: "('src, 'items) env \<Rightarrow> 'src gen \<Rightarrow> command list \<Rightarrow> event list \<times> 'src gen" where
  "run env g [] = ([], g)"
| "run env g (c # cs) =
     (case exec env g c of (ev, g') \<Rightarrow>
        (case run env g' cs of (evs, g'') \<Rightarrow> (ev @ evs, g'')))"

section \<open>Reading a trace\<close>

definition acquisitions :: "event list \<Rightarrow> nat" where
  "acquisitions tr = count_list tr ReadLock"

definition releases :: "event list \<Rightarrow> nat" where
  "releases tr = count_list tr ReleaseLock"

text \<open>The entries the consumer received, in order.\<close>

primrec yielded :: "event list \<Rightarrow> entry list" where
  "yielded [] = []"
| "yielded (x # tr) = (case x of Yield e \<Rightarrow> e # yielded tr | _ \<Rightarrow> yielded tr)"


text \<open>The calls of \<^verbatim>\<open>pin.add\<close> and of \<^verbatim>\<open>preload\<close>.\<close>

primrec pin_calls :: "event list \<Rightarrow> (cid \<times> pin_options) list" where
  "pin_calls [] = []"
| "pin_calls (x # tr) =
     (case x of PinAdd c po \<Rightarrow> (c, po) # pin_calls tr | _ \<Rightarrow> pin_calls tr)"

primrec preload_calls :: "event list \<Rightarrow> cid list" where
  "preload_calls [] = []"
| "preload_calls (x # tr) =
     (case x of Preload c \<Rightarrow> c # preload_calls tr | _ \<Rightarrow> preload_calls tr)"

text \<open>The nodes of an importer's script, in order.\<close>

primrec script_nodes :: "importer_action list \<Rightarrow> imported_node list" where
  "script_nodes [] = []"
| "script_nodes (a # acts) =
     (case a of Node n \<Rightarrow> n # script_nodes acts | _ \<Rightarrow> script_nodes acts)"



text \<open>
  The events of the importer (progress reports) and those of the pipeline (the importer's,
  and the calls of the preload and pin stages).
\<close>

fun progress_event :: "event \<Rightarrow> bool" where
  "progress_event (Callback p n) = True"
| "progress_event x = False"

fun stage_event :: "event \<Rightarrow> bool" where
  "stage_event (Callback p n) = True"
| "stage_event (Preload c) = True"
| "stage_event (PinAdd c po) = True"
| "stage_event x = False"

section \<open>An example environment\<close>

text \<open>
  Collaborators for concrete runs: a chunker parser that accepts an absent chunker and
  \<^verbatim>\<open>size-1024\<close>, an importer that reports three chunks and yields a file and then
  its directory, and a lock, a preloader, a pinner and caller's functions that succeed.
\<close>

definition example_parseChunkerString :: "jsval \<Rightarrow> error + jsobj" where
  "example_parseChunkerString v =
     (if v = JUndefined then Inr [''chunker'' \<mapsto> JStr ''fixed'']
      else if v = JStr ''size-1024''
        then Inr [''chunker'' \<mapsto> JStr ''fixed'', ''maxChunkSize'' \<mapsto> JNum 1024]
      else Inl (Error ''Unrecognized chunker option''))"

definition example_child :: imported_node where
  "example_child =
     \<lparr>node_cid = \<lparr>cid_version = 0, cid_codec = ''dag-pb'', cid_multihash = [18, 32, 7]\<rparr>,
      node_path = Some ''dir/a.txt'', node_size = 150, node_unixfs = None\<rparr>"

definition example_root :: imported_node where
  "example_root =
     \<lparr>node_cid = \<lparr>cid_version = 0, cid_codec = ''dag-pb'', cid_multihash = [18, 32, 9]\<rparr>,
      node_path = Some ''dir'', node_size = 175,
      node_unixfs = Some \<lparr>unixfs_mode = Some 493, unixfs_mtime = None\<rparr>\<rparr>"

definition example_script :: "importer_action list" where
  "example_script = [Chunk 100, Chunk 50, Node example_child, Chunk 25, Node example_root]"

definition example_env :: "(unit, unit) env" where
  "example_env =
     \<lparr>isShardingEnabled = JUndefined,
      parseChunkerString = example_parseChunkerString,
      normaliseAddInput = (\<lambda>source. Inr ()),
      importer = (\<lambda>items opts. example_script),
      readLock = None,
      preload = (\<lambda>c. Resolves),
      pin_add = (\<lambda>c po. Resolves),
      call_prog = (\<lambda>f n. None),
      cid_toString = (\<lambda>c. ''Qm'')\<rparr>"

text \<open>A raw leaf, as the importer yields it: its CID is already of version 1.\<close>

definition example_raw_leaf :: imported_node where
  "example_raw_leaf =
     \<lparr>node_cid = \<lparr>cid_version = 1, cid_codec = ''raw'', cid_multihash = [18, 32, 5]\<rparr>,
      node_path = None, node_size = 5, node_unixfs = None\<rparr>"

section \<open>Basic facts\<close>

lemma run_Completed: "run env Completed cmds = ([], Completed)"
proof (induction cmds)
  case Nil
  show ?case by simp
next
  case (Cons c cmds)
  then show ?case by (cases c) simp_all
qed

lemma yielded_append: "yielded (xs @ ys) = yielded xs @ yielded ys"
  by (induction xs) (simp_all split: event.splits)


lemma pin_calls_append: "pin_calls (xs @ ys) = pin_calls xs @ pin_calls ys"
  by (induction xs) (simp_all split: event.splits)

lemma preload_calls_append: "preload_calls (xs @ ys) = preload_calls xs @ preload_calls ys"
  by (induction xs) (simp_all split: event.splits)

lemma call_progress_events:
  "call_progress env v t b = (ev, t', r) \<Longrightarrow> x \<in> set ev \<Longrightarrow> progress_event x"
  by (cases "(env, v, t, b)" rule: call_progress.cases) auto

lemma importer_next_events:
  "x \<in> set (fst (importer_next env opts s)) \<Longrightarrow> progress_event x"
proof (induction env opts s rule: importer_next.induct)
  case (2 env opts tot b acts)
  then show ?case
    by (auto split: prod.splits option.splits dest: call_progress_events)
qed simp_all

lemma importer_next_Value:
  "importer_next env opts (t, acts) = (ev, Value n, (t', acts')) \<Longrightarrow>
   script_nodes acts = n # script_nodes acts' \<and> set acts' \<subseteq> set acts"
proof (induction env opts "(t, acts)" arbitrary: t acts ev rule: importer_next.induct)
  case (2 env opts tot b acts)
  then show ?case
    by (auto split: prod.splits option.splits)
qed auto

lemma importer_next_Finished:
  "importer_next env opts (t, acts) = (ev, Finished, s') \<Longrightarrow> script_nodes acts = []"
proof (induction env opts "(t, acts)" arbitrary: t acts ev rule: importer_next.induct)
  case (2 env opts tot b acts)
  then show ?case
    by (auto split: prod.splits option.splits)
qed simp_all

lemma progress_events_only:
  "\<forall>x \<in> set ev. progress_event x \<Longrightarrow>
   pin_calls ev = [] \<and> preload_calls ev = [] \<and> yielded ev = []"
  by (induction ev) (auto split: event.splits)

lemma progress_stage_event: "progress_event x \<Longrightarrow> stage_event x"
  by (cases x) simp_all

lemma importer_next_stage_events: "\<forall>x \<in> set (fst (importer_next env opts s)). stage_event x"
  by (blast intro: importer_next_events progress_stage_event)

lemma pipeline_stage_events:
  "x \<in> set (fst (pipeline env opts s)) \<Longrightarrow> stage_event x"
  using importer_next_stage_events [of env "importer_options opts" s]
  by (auto simp: pipeline_def pinFile_def preloadFile_def transformFile_def Let_def
      split: prod.splits iter_result.splits call_outcome.splits if_splits)

lemma pipeline_Value:
  "pipeline env opts s = (ev, Value file, s') \<Longrightarrow>
   \<exists>ev0 n. importer_next env (importer_options opts) s = (ev0, Value n, s')
      \<and> file = transform_entry env opts n"
  by (auto simp: pipeline_def pinFile_def preloadFile_def transformFile_def Let_def
      split: prod.splits iter_result.splits call_outcome.splits if_splits)

lemma pipeline_Finished:
  "pipeline env opts s = (ev, Finished, s') \<Longrightarrow>
   importer_next env (importer_options opts) s = (ev, Finished, s')"
  by (auto simp: pipeline_def pinFile_def preloadFile_def transformFile_def Let_def
      split: prod.splits iter_result.splits call_outcome.splits if_splits)


lemma importer_next_no_pin_calls: "pin_calls (fst (importer_next env opts s)) = []"
  using importer_next_events [of _ env opts s] progress_events_only by blast

lemma pipeline_pin_calls:
  "(c, po) \<in> set (pin_calls (fst (pipeline env opts s))) \<Longrightarrow>
   po = \<lparr>pin_preload = False, pin_lock = False\<rparr> \<and>
   (\<exists>file. shouldPin opts file \<and> c = entry_cid file)"
  using importer_next_no_pin_calls [of env "importer_options opts" s]
  by (auto simp: pipeline_def pinFile_def preloadFile_def transformFile_def Let_def
      pin_calls_append
      split: prod.splits iter_result.splits call_outcome.splits if_splits)


lemma pipeline_no_locks:
  "count_list (fst (pipeline env opts s)) ReadLock = 0 \<and>
   count_list (fst (pipeline env opts s)) ReleaseLock = 0"
proof -
  have "ReadLock \<notin> set (fst (pipeline env opts s))"
    using pipeline_stage_events [of ReadLock env opts s] by auto
  moreover have "ReleaseLock \<notin> set (fst (pipeline env opts s))"
    using pipeline_stage_events [of ReleaseLock env opts s] by auto
  ultimately show ?thesis by simp
qed

lemma pull_locks:
  assumes "pull env opts s = (ev, g)"
  shows "acquisitions ev = 0 \<and>
         ((\<exists>t a. g = Suspended opts t a) \<and> releases ev = 0 \<or> g = Completed \<and> releases ev = 1)"
  using assms pipeline_no_locks [of env opts s]
  by (auto simp: pull_def acquisitions_def releases_def
      split: prod.splits iter_result.splits)

lemma run_Suspended_locks:
  "run env (Suspended opts t acts) cmds = (tr, g) \<Longrightarrow>
   acquisitions tr = 0 \<and>
   ((\<exists>t' a'. g = Suspended opts t' a') \<and> releases tr = 0 \<or> g = Completed \<and> releases tr = 1)"
proof (induction cmds arbitrary: t acts tr g)
  case Nil
  then show ?case by (auto simp: acquisitions_def releases_def)
next
  case (Cons c cmds)
  obtain ev g' where ex: "exec env (Suspended opts t acts) c = (ev, g')"
    by (cases "exec env (Suspended opts t acts) c")
  obtain evs g'' where rn: "run env g' cmds = (evs, g'')"
    by (cases "run env g' cmds")
  from Cons.prems ex rn have tr: "tr = ev @ evs" and g: "g = g''" by auto
  have step: "acquisitions ev = 0 \<and>
         ((\<exists>t a. g' = Suspended opts t a) \<and> releases ev = 0 \<or> g' = Completed \<and> releases ev = 1)"
  proof (cases c)
    case Next
    with ex show ?thesis using pull_locks [of env opts "(t, acts)" ev g'] by simp
  next
    case Return
    with ex show ?thesis by (auto simp: acquisitions_def releases_def)
  qed
  show ?case
  proof (cases "g' = Completed")
    case True
    with rn have "evs = []" "g'' = Completed" by (simp_all add: run_Completed)
    with step True tr g show ?thesis by simp
  next
    case False
    with step obtain t1 a1 where g': "g' = Suspended opts t1 a1" and r0: "releases ev = 0" by auto
    from Cons.IH [of t1 a1 evs g''] rn g'
    have "acquisitions evs = 0 \<and>
        ((\<exists>t' a'. g'' = Suspended opts t' a') \<and> releases evs = 0 \<or> g'' = Completed \<and> releases evs = 1)"
      by simp
    with step r0 tr g show ?thesis
      by (auto simp: acquisitions_def releases_def)
  qed
qed

lemma pull_progress:
  assumes "pull env opts (t, acts) = (ev, g)"
  shows "g = Completed \<or>
         (\<exists>t' acts' n. g = Suspended opts t' acts' \<and> script_nodes acts = n # script_nodes acts'
            \<and> yielded ev = [transform_entry env opts n] \<and> set acts' \<subseteq> set acts)"
proof (cases "pipeline env opts (t, acts)")
  case (fields ev0 r t' acts')
  have noy: "yielded ev0 = []"
  proof -
    have "\<forall>x \<in> set ev0. stage_event x"
      using pipeline_stage_events [of _ env opts "(t, acts)"] fields by auto
    then show ?thesis
      by (induction ev0) (auto split: event.splits)
  qed
  show ?thesis
  proof (cases r)
    case (Value fl)
    from pipeline_Value [of env opts "(t, acts)" ev0 fl "(t', acts')"] fields Value
    obtain ev1 n where "importer_next env (importer_options opts) (t, acts) = (ev1, Value n, (t', acts'))"
      and f: "fl = transform_entry env opts n" by auto
    then have "script_nodes acts = n # script_nodes acts' \<and> set acts' \<subseteq> set acts"
      using importer_next_Value by blast
    with assms fields Value f noy show ?thesis
      by (auto simp: pull_def yielded_append)
  next
    case Finished
    with assms fields show ?thesis by (auto simp: pull_def)
  next
    case (Rejected e)
    with assms fields show ?thesis by (auto simp: pull_def)
  qed
qed

lemma run_Suspended_completes:
  "Return \<in> set cmds \<or> length (script_nodes acts) < count_list cmds Next \<Longrightarrow>
   snd (run env (Suspended opts t acts) cmds) = Completed"
proof (induction cmds arbitrary: t acts)
  case Nil
  then show ?case by simp
next
  case (Cons c cmds)
  show ?case
  proof (cases c)
    case Return
    then show ?thesis by (simp add: run_Completed)
  next
    case Next
    obtain ev g where p: "pull env opts (t, acts) = (ev, g)"
      by (cases "pull env opts (t, acts)")
    from pull_progress [OF p] show ?thesis
    proof
      assume "g = Completed"
      with p Next show ?thesis by (simp add: run_Completed)
    next
      assume "\<exists>t' acts' n. g = Suspended opts t' acts' \<and> script_nodes acts = n # script_nodes acts'
            \<and> yielded ev = [transform_entry env opts n] \<and> set acts' \<subseteq> set acts"
      then obtain t' acts' n where g: "g = Suspended opts t' acts'"
        and sn: "script_nodes acts = n # script_nodes acts'" by blast
      from Cons.prems Next sn
      have "Return \<in> set cmds \<or> length (script_nodes acts') < count_list cmds Next" by auto
      from Cons.IH [OF this, of t'] p Next g show ?thesis
        by (auto split: prod.splits)
    qed
  qed
qed

section \<open>The read lock (C1)\<close>

lemma run_Start_locks:
  assumes "run env (Start source options) cmds = (tr, g)"
  shows "g = Start source options \<and> acquisitions tr = 0 \<and> releases tr = 0
       \<or> (\<exists>opts t a. g = Suspended opts t a) \<and> acquisitions tr = 1 \<and> releases tr = 0
       \<or> g = Completed \<and> releases tr = acquisitions tr \<and> acquisitions tr \<le> 1"
proof (cases cmds)
  case Nil
  with assms show ?thesis by (auto simp: acquisitions_def releases_def)
next
  case (Cons c cs)
  show ?thesis
  proof (cases c)
    case Return
    with assms Cons show ?thesis
      by (auto simp: run_Completed acquisitions_def releases_def)
  next
    case Next
    show ?thesis
    proof (cases "addAll_setup env source options")
      case (Inl e)
      with assms Cons Next show ?thesis
        by (auto simp: run_Completed acquisitions_def releases_def)
    next
      case (Inr p)
      obtain opts acts where p: "p = (opts, acts)" by (cases p)
      obtain ev g' where pl: "pull env opts (JsNum 0, acts) = (ev, g')"
        by (cases "pull env opts (JsNum 0, acts)")
      obtain evs g'' where rn: "run env g' cs = (evs, g'')"
        by (cases "run env g' cs")
      from assms Cons Next Inr p pl rn have tr: "tr = ReadLock # ev @ evs" and g: "g = g''"
        by auto
      from pull_locks [OF pl] have a0: "acquisitions ev = 0"
        and d: "(\<exists>t a. g' = Suspended opts t a) \<and> releases ev = 0 \<or> g' = Completed \<and> releases ev = 1"
        by auto
      from d show ?thesis
      proof
        assume "(\<exists>t a. g' = Suspended opts t a) \<and> releases ev = 0"
        then obtain t a where g': "g' = Suspended opts t a" and r0: "releases ev = 0" by auto
        from run_Suspended_locks [of env opts t a cs evs g''] rn g'
        have "acquisitions evs = 0 \<and>
          ((\<exists>t' a'. g'' = Suspended opts t' a') \<and> releases evs = 0 \<or> g'' = Completed \<and> releases evs = 1)"
          by simp
        with a0 r0 tr g show ?thesis
          by (auto simp: acquisitions_def releases_def)
      next
        assume c: "g' = Completed \<and> releases ev = 1"
        with rn have "evs = []" "g'' = Completed" by (simp_all add: run_Completed)
        with a0 c tr g show ?thesis
          by (auto simp: acquisitions_def releases_def)
      qed
    qed
  qed
qed

lemma run_Start_Next_completes:
  assumes "addAll_setup env source options = Inr (opts, acts)"
    and "Return \<in> set cmds \<or> length (script_nodes acts) < count_list (Next # cmds) Next"
  shows "snd (run env (Start source options) (Next # cmds)) = Completed"
proof -
  obtain ev g where p: "pull env opts (JsNum 0, acts) = (ev, g)"
    by (cases "pull env opts (JsNum 0, acts)")
  from pull_progress [OF p] show ?thesis
  proof
    assume "g = Completed"
    with p assms(1) show ?thesis by (simp add: run_Completed)
  next
    assume "\<exists>t' acts' n. g = Suspended opts t' acts' \<and> script_nodes acts = n # script_nodes acts'
            \<and> yielded ev = [transform_entry env opts n] \<and> set acts' \<subseteq> set acts"
    then obtain t' acts' n where g: "g = Suspended opts t' acts'"
      and sn: "script_nodes acts = n # script_nodes acts'" by blast
    from assms(2) sn
    have "Return \<in> set cmds \<or> length (script_nodes acts') < count_list cmds Next" by auto
    from run_Suspended_completes [OF this, of env opts t'] p assms(1) g show ?thesis
      by (auto split: prod.splits)
  qed
qed

lemma run_Start_setup_fails:
  assumes "addAll_setup env source options = Inl e"
  shows "acquisitions (fst (run env (Start source options) cmds)) = 0 \<and>
         releases (fst (run env (Start source options) cmds)) = 0"
proof (cases cmds)
  case Nil
  then show ?thesis by (simp add: acquisitions_def releases_def)
next
  case (Cons c cs)
  with assms show ?thesis
    by (cases c) (simp_all add: run_Completed acquisitions_def releases_def)
qed

text \<open>The definitions that a concrete run unfolds.\<close>

lemmas example_defs =
  addAll_setup_def finalize_options_def example_env_def or_empty_def get_def
  Let_def example_parseChunkerString_def example_script_def pull_def pipeline_def
  pinFile_def preloadFile_def transformFile_def shouldPin_def isRootDir_def shouldPreload_def
  isRootFile_def transform_entry_def no_path_def example_child_def example_root_def
  merge_options_def force_cid_version_def apply_trickle_def wrap_progress_def
  importer_options_def

lemma example_setup:
  "\<exists>opts. addAll_setup example_env () None = Inr (opts, example_script)"
  by (simp add: addAll_setup_def finalize_options_def example_env_def or_empty_def get_def Let_def
      example_parseChunkerString_def)

text \<open>
  C1, as amended. An invocation whose setup succeeds (the options are finalised, the
  normaliser returns and the read lock is granted) and that is pulled at least once has
  acquired the read lock exactly once and released it exactly once as soon as the
  consumer has closed the sequence with \<^verbatim>\<open>return()\<close> after any number of entries or has
  pulled more often than the importer has nodes, whatever the stages raised on the way.
  An invocation whose setup fails (a malformed chunker, a throwing normaliser, a
  rejected lock) acquires and releases nothing. In every run there is at most one
  acquisition, and the number of releases is the number of acquisitions once the
  generator has completed and zero before.
\<close>

theorem lock_acquired_and_released_once:
  "(\<forall>opts acts.
      addAll_setup env source options = Inr (opts, acts) \<longrightarrow>
      Return \<in> set cmds \<or> length (script_nodes acts) < count_list (Next # cmds) Next \<longrightarrow>
        acquisitions (fst (run env (Start source options) (Next # cmds))) = 1 \<and>
        releases (fst (run env (Start source options) (Next # cmds))) = 1) \<and>
   (\<forall>e. addAll_setup env source options = Inl e \<longrightarrow>
        acquisitions (fst (run env (Start source options) cmds)) = 0 \<and>
        releases (fst (run env (Start source options) cmds)) = 0) \<and>
   acquisitions (fst (run env (Start source options) cmds)) \<le> 1 \<and>
   releases (fst (run env (Start source options) cmds))
     = (if snd (run env (Start source options) cmds) = Completed
        then acquisitions (fst (run env (Start source options) cmds)) else 0)"
proof (intro conjI allI impI)
  fix opts acts
  assume s: "addAll_setup env source options = Inr (opts, acts)"
    and d: "Return \<in> set cmds \<or> length (script_nodes acts) < count_list (Next # cmds) Next"
  let ?r = "run env (Start source options) (Next # cmds)"
  have c: "snd ?r = Completed" by (rule run_Start_Next_completes [OF s d])
  obtain ev g where p: "pull env opts (JsNum 0, acts) = (ev, g)"
    by (cases "pull env opts (JsNum 0, acts)")
  have "ReadLock \<in> set (fst ?r)"
    using s p by (auto split: prod.splits)
  then have pos: "acquisitions (fst ?r) \<noteq> 0"
    by (simp add: acquisitions_def count_list_0_iff)
  from run_Start_locks [of env source options "Next # cmds" "fst ?r" "snd ?r"] c pos
  show "acquisitions (fst ?r) = 1" and "releases (fst ?r) = 1"
    by auto
next
  fix e
  assume "addAll_setup env source options = Inl e"
  from run_Start_setup_fails [OF this]
  show "acquisitions (fst (run env (Start source options) cmds)) = 0"
    and "releases (fst (run env (Start source options) cmds)) = 0" by auto
next
  let ?r = "run env (Start source options) cmds"
  from run_Start_locks [of env source options cmds "fst ?r" "snd ?r"]
  show "acquisitions (fst ?r) \<le> 1"
    and "releases (fst ?r) = (if snd ?r = Completed then acquisitions (fst ?r) else 0)"
    by auto
qed

theorem lock_acquired_and_released_once_witness:
  "acquisitions (fst (run example_env (Start () None) [Next, Next, Return])) = 1 \<and>
   releases (fst (run example_env (Start () None) [Next, Next, Return])) = 1"
  using lock_acquired_and_released_once [of example_env "()" None "[Next, Return]"] example_setup
  by auto

text \<open>
  C1 as stated fails: with a chunker that the parser rejects, the invocation ends with
  that error and the lock has never been acquired.
\<close>

theorem lock_acquired_and_released_once_counterexample:
  "acquisitions (fst (run example_env (Start () (Some [''chunker'' \<mapsto> JStr ''bogus''])) [Next, Next])) = 0"
  by (simp add: addAll_setup_def finalize_options_def example_env_def or_empty_def get_def
      Let_def example_parseChunkerString_def acquisitions_def)


section \<open>The finalised options\<close>

lemma get_upd: "get (m(k \<mapsto> v)) k' = (if k' = k then v else get m k')"
  by (simp add: get_def)

lemma finalize_Inr:
  "parseChunkerString env (get (or_empty options) ''chunker'') = Inr chunker \<Longrightarrow>
   finalize_options env options =
     Inr (wrap_progress (apply_trickle (force_cid_version
            (merge_options env (or_empty options) chunker))))"
  by (simp add: finalize_options_def)

lemma finalize_Inl:
  "parseChunkerString env (get (or_empty options) ''chunker'') = Inl e \<Longrightarrow>
   finalize_options env options = Inl e"
  by (simp add: finalize_options_def)

lemma get_wrap_progress:
  "k \<noteq> ''progress'' \<Longrightarrow> get (wrap_progress opts) k = get opts k"
  by (simp add: wrap_progress_def get_upd)



lemma get_apply_trickle_other:
  "k \<noteq> ''strategy'' \<Longrightarrow> k \<noteq> ''trickle'' \<Longrightarrow> get (apply_trickle opts) k = get opts k"
  by (simp add: apply_trickle_def get_def)




lemma get_force_cid_version_cidVersion:
  "get (force_cid_version opts) ''cidVersion'' =
     (if truthy (get opts ''hashAlg'') \<and> get opts ''hashAlg'' \<noteq> JStr ''sha2-256''
      then JNum 1 else get opts ''cidVersion'')"
  by (simp add: force_cid_version_def get_upd)

subsection \<open>The strategy (C10)\<close>



subsection \<open>A malformed chunker (C7)\<close>

text \<open>
  C7. When \<^verbatim>\<open>parseChunkerString\<close> rejects the chunker option, the first pull of
  \<^verbatim>\<open>addAll\<close> fails with that error and the generator is completed; whatever the
  consumer does, the read lock is never acquired.
\<close>

theorem invalid_chunker_before_lock:
  assumes "parseChunkerString env (get (or_empty options) ''chunker'') = Inl e"
  shows "addAll_next env (Start source options) = ([Raise e], Completed)
       \<and> run env (Start source options) (Next # cmds) = ([Raise e], Completed)
       \<and> acquisitions (fst (run env (Start source options) cmds')) = 0"
proof -
  have s: "addAll_setup env source options = Inl e"
    using assms by (simp add: addAll_setup_def finalize_Inl)
  then have a: "addAll_next env (Start source options) = ([Raise e], Completed)" by simp
  then have b: "run env (Start source options) (Next # cmds) = ([Raise e], Completed)"
    by (simp add: run_Completed)
  from run_Start_setup_fails [OF s] a b show ?thesis by simp
qed

theorem invalid_chunker_before_lock_witness:
  "run example_env (Start () (Some [''chunker'' \<mapsto> JStr ''rabin-x''])) [Next, Next]
     = ([Raise (Error ''Unrecognized chunker option'')], Completed)
   \<and> acquisitions (fst (run example_env (Start () (Some [''chunker'' \<mapsto> JStr ''rabin-x'']))
        [Next, Next])) = 0"
proof -
  have p: "parseChunkerString example_env
             (get (or_empty (Some [''chunker'' \<mapsto> JStr ''rabin-x''])) ''chunker'')
           = Inl (Error ''Unrecognized chunker option'')"
    by (simp add: example_env_def example_parseChunkerString_def get_def or_empty_def)
  from invalid_chunker_before_lock [OF p, of "()" "[Next]" "[Next, Next]"] show ?thesis
    by blast
qed

section \<open>The entry transform\<close>

subsection \<open>The output path (C5)\<close>

text \<open>
  C5. The path of the output entry is the empty string when \<^verbatim>\<open>wrapWithDirectory\<close>
  is set and the node has no path (undefined or empty); otherwise it is the string
  form of the version-adjusted CID when the node has no path, and the node's path
  unchanged when it has one.
\<close>

theorem output_path_derivation:
  "entry_path (transform_entry env opts file) =
     (if node_path file = None \<or> node_path file = Some []
      then (if truthy (get opts ''wrapWithDirectory'') then []
            else cid_toString env
                   (if get opts ''cidVersion'' = JNum 1 then toV1 (node_cid file)
                    else node_cid file))
      else (case node_path file of Some p \<Rightarrow> p | None \<Rightarrow> []))"
proof (cases "node_path file")
  case None
  then have "no_path file" by (simp add: no_path_def)
  with None show ?thesis by (simp add: transform_entry_def Let_def)
next
  case (Some p)
  show ?thesis
  proof (cases "p = []")
    case True
    with Some have "no_path file" by (simp add: no_path_def)
    with Some True show ?thesis by (simp add: transform_entry_def Let_def)
  next
    case False
    with Some have "\<not> no_path file" by (simp add: no_path_def)
    with Some False show ?thesis by (simp add: transform_entry_def Let_def)
  qed
qed

theorem output_path_derivation_witness:
  "entry_path (transform_entry example_env [''wrapWithDirectory'' \<mapsto> JBool True] example_raw_leaf) = []
   \<and> entry_path (transform_entry example_env Map.empty example_raw_leaf) = ''Qm''
   \<and> entry_path (transform_entry example_env Map.empty example_root) = ''dir''"
  using output_path_derivation [of example_env "[''wrapWithDirectory'' \<mapsto> JBool True]" example_raw_leaf]
    output_path_derivation [of example_env Map.empty example_raw_leaf]
    output_path_derivation [of example_env Map.empty example_root]
  by (simp add: example_raw_leaf_def example_root_def example_env_def get_def)

subsection \<open>The CID version (C3)\<close>

text \<open>
  C3, as amended. The CID of the output entry is the version-1 encoding of the
  importer's CID when the effective \<^verbatim>\<open>cidVersion\<close> is 1 and the importer's CID
  unchanged otherwise. It is therefore of version 1 exactly when the effective
  \<^verbatim>\<open>cidVersion\<close> is 1 or the importer's CID already was of version 1, and for an
  importer's CID that is not of version 1 it is the version-1 encoding exactly when
  the effective \<^verbatim>\<open>cidVersion\<close> is 1. The effective \<^verbatim>\<open>cidVersion\<close> is 1 whenever a
  hash algorithm other than \<^verbatim>\<open>'sha2-256'\<close> is requested, also when the caller asked
  for version 0, and is the merged option otherwise.
\<close>

theorem cid_version_normalised:
  "entry_cid (transform_entry env opts file) =
     (if get opts ''cidVersion'' = JNum 1 then toV1 (node_cid file) else node_cid file)
   \<and> (cid_version (entry_cid (transform_entry env opts file)) = 1 \<longleftrightarrow>
        get opts ''cidVersion'' = JNum 1 \<or> cid_version (node_cid file) = 1)
   \<and> (cid_version (node_cid file) \<noteq> 1 \<longrightarrow>
        (entry_cid (transform_entry env opts file) = toV1 (node_cid file) \<longleftrightarrow>
         get opts ''cidVersion'' = JNum 1))
   \<and> (\<forall>chunker. parseChunkerString env (get (or_empty options) ''chunker'') = Inr chunker \<longrightarrow>
        (\<exists>final. finalize_options env options = Inr final \<and>
           get final ''cidVersion'' =
             (if truthy (get (merge_options env (or_empty options) chunker) ''hashAlg'')
                 \<and> get (merge_options env (or_empty options) chunker) ''hashAlg'' \<noteq> JStr ''sha2-256''
              then JNum 1
              else get (merge_options env (or_empty options) chunker) ''cidVersion'')))"
proof (intro conjI allI impI)
  show a: "entry_cid (transform_entry env opts file) =
     (if get opts ''cidVersion'' = JNum 1 then toV1 (node_cid file) else node_cid file)"
    by (simp add: transform_entry_def Let_def)
  show "cid_version (entry_cid (transform_entry env opts file)) = 1 \<longleftrightarrow>
        get opts ''cidVersion'' = JNum 1 \<or> cid_version (node_cid file) = 1"
    by (simp add: a toV1_def)
  assume "cid_version (node_cid file) \<noteq> 1"
  then have "node_cid file \<noteq> toV1 (node_cid file)"
    by (metis cid.select_convs(1) cid.surjective cid.update_convs(1) toV1_def)
  then show "entry_cid (transform_entry env opts file) = toV1 (node_cid file) \<longleftrightarrow>
         get opts ''cidVersion'' = JNum 1"
    by (simp add: a)
next
  fix chunker
  assume "parseChunkerString env (get (or_empty options) ''chunker'') = Inr chunker"
  from finalize_Inr [OF this]
  show "\<exists>final. finalize_options env options = Inr final \<and>
           get final ''cidVersion'' =
             (if truthy (get (merge_options env (or_empty options) chunker) ''hashAlg'')
                 \<and> get (merge_options env (or_empty options) chunker) ''hashAlg'' \<noteq> JStr ''sha2-256''
              then JNum 1
              else get (merge_options env (or_empty options) chunker) ''cidVersion'')"
    by (simp add: get_wrap_progress get_apply_trickle_other get_force_cid_version_cidVersion)
qed

theorem cid_version_normalised_witness:
  "\<exists>final. finalize_options example_env
       (Some [''hashAlg'' \<mapsto> JStr ''sha2-512'', ''cidVersion'' \<mapsto> JNum 0]) = Inr final
     \<and> get final ''cidVersion'' = JNum 1
     \<and> entry_cid (transform_entry example_env final example_root) = toV1 (node_cid example_root)"
proof -
  let ?o = "Some [''hashAlg'' \<mapsto> JStr ''sha2-512'', ''cidVersion'' \<mapsto> JNum 0]"
  have p: "parseChunkerString example_env (get (or_empty ?o) ''chunker'')
           = Inr [''chunker'' \<mapsto> JStr ''fixed'']"
    by (simp add: example_env_def example_parseChunkerString_def get_def or_empty_def)
  have "\<exists>final. finalize_options example_env ?o = Inr final \<and> get final ''cidVersion'' = JNum 1"
    using cid_version_normalised [of example_env Map.empty example_root ?o] p
    by (simp add: merge_options_def get_def or_empty_def)
  then obtain final where f: "finalize_options example_env ?o = Inr final"
    and v: "get final ''cidVersion'' = JNum 1" by blast
  from cid_version_normalised [of example_env final example_root ?o] v
  have "entry_cid (transform_entry example_env final example_root) = toV1 (node_cid example_root)"
    by simp
  with f v show ?thesis by blast
qed

text \<open>
  C3 as stated fails in its "only if": a raw leaf has a CID of version 1 already, so
  with \<^verbatim>\<open>rawLeaves\<close> and no \<^verbatim>\<open>cidVersion\<close> the entry's CID, passed through
  unchanged, is the version-1 encoding of the importer's CID.
\<close>

theorem cid_version_normalised_counterexample:
  "\<not> (entry_cid (transform_entry example_env [''rawLeaves'' \<mapsto> JBool True] example_raw_leaf)
          = toV1 (node_cid example_raw_leaf)
        \<longleftrightarrow> get [''rawLeaves'' \<mapsto> JBool True] ''cidVersion'' = JNum 1)"
  by (simp add: transform_entry_def Let_def get_def toV1_def example_raw_leaf_def)


section \<open>Runs in which nothing fails\<close>

text \<open>
  The pipeline raises nothing when the importer's script has no throw, a supplied
  progress value is a function whose calls return, the pin calls resolve and the
  preload calls do not throw.
\<close>

lemma call_progress_returns:
  assumes "\<forall>prog. get opts ''progress'' = JWrappedProgress prog \<longrightarrow>
             (\<exists>f. prog = JFun f \<and> (\<forall>n. call_prog env f n = None))"
  shows "snd (snd (call_progress env (get opts ''progress'') t b)) = None"
  using assms
  by (cases "(env, get opts ''progress'', t, b)" rule: call_progress.cases) auto

lemma importer_next_benign:
  "\<forall>prog. get opts ''progress'' = JWrappedProgress prog \<longrightarrow>
      (\<exists>f. prog = JFun f \<and> (\<forall>n. call_prog env f n = None)) \<Longrightarrow>
   \<forall>e. Throw e \<notin> set acts \<Longrightarrow>
   importer_next env opts (t, acts) = (ev, r, s') \<Longrightarrow> r \<noteq> Rejected e"
proof (induction env opts "(t, acts)" arbitrary: t acts ev rule: importer_next.induct)
  case (2 env opts tot b acts)
  obtain ev1 t1 r1 where cp: "call_progress env (get opts ''progress'') tot b = (ev1, t1, r1)"
    by (cases "call_progress env (get opts ''progress'') tot b")
  with call_progress_returns [OF "2.prems"(1), of tot b] have r1: "r1 = None" by simp
  obtain ev2 r2 s2 where n: "importer_next env opts (t1, acts) = (ev2, r2, s2)"
    by (cases "importer_next env opts (t1, acts)")
  from "2.prems"(3) cp r1 n have r: "r = r2" "s' = s2" by auto
  from "2.prems"(2) have "\<forall>e. Throw e \<notin> set acts" by auto
  from "2.hyps" [OF cp [symmetric] refl r1 "2.prems"(1) this] n r
  show ?case by simp
qed auto

lemma pipeline_benign:
  assumes "\<forall>prog. get opts ''progress'' = JWrappedProgress prog \<longrightarrow>
             (\<exists>f. prog = JFun f \<and> (\<forall>n. call_prog env f n = None))"
    and "\<forall>e. Throw e \<notin> set acts"
    and "\<forall>c po. pin_add env c po = Resolves"
    and "\<forall>c e. preload env c \<noteq> Throws e"
    and "pipeline env opts (t, acts) = (ev, r, s')"
  shows "r \<noteq> Rejected e"
proof -
  have g: "get (importer_options opts) ''progress'' = get opts ''progress''"
    by (simp add: importer_options_def get_def)
  obtain ev0 r0 s0 where i: "importer_next env (importer_options opts) (t, acts) = (ev0, r0, s0)"
    by (cases "importer_next env (importer_options opts) (t, acts)")
  from assms(1) g have "\<forall>prog. get (importer_options opts) ''progress'' = JWrappedProgress prog \<longrightarrow>
             (\<exists>f. prog = JFun f \<and> (\<forall>n. call_prog env f n = None))" by simp
  from importer_next_benign [OF this assms(2) i] have "\<forall>e. r0 \<noteq> Rejected e" by blast
  with assms(3,4,5) i show ?thesis
    by (auto simp: pipeline_def pinFile_def preloadFile_def transformFile_def Let_def
        split: prod.splits iter_result.splits call_outcome.splits if_splits)
qed

lemma pull_benign:
  assumes "\<forall>prog. get opts ''progress'' = JWrappedProgress prog \<longrightarrow>
             (\<exists>f. prog = JFun f \<and> (\<forall>n. call_prog env f n = None))"
    and "\<forall>e. Throw e \<notin> set acts"
    and "\<forall>c po. pin_add env c po = Resolves"
    and "\<forall>c e. preload env c \<noteq> Throws e"
    and "pull env opts (t, acts) = (ev, g)"
  shows "Raise e \<notin> set ev"
proof (cases "pipeline env opts (t, acts)")
  case (fields ev0 r t' acts')
  have "\<not> stage_event (Raise e)" by simp
  with pipeline_stage_events [of "Raise e" env opts "(t, acts)"] fields
  have n: "Raise e \<notin> set ev0" by auto
  from pipeline_benign [OF assms(1-4) fields] have "\<forall>e. r \<noteq> Rejected e" by blast
  with assms(5) fields n show ?thesis
    by (cases r) (auto simp: pull_def)
qed

lemma run_Suspended_benign:
  assumes "\<forall>prog. get opts ''progress'' = JWrappedProgress prog \<longrightarrow>
             (\<exists>f. prog = JFun f \<and> (\<forall>n. call_prog env f n = None))"
    and "\<forall>c po. pin_add env c po = Resolves"
    and "\<forall>c e. preload env c \<noteq> Throws e"
  shows "\<forall>e. Throw e \<notin> set acts \<Longrightarrow>
         Raise e \<notin> set (fst (run env (Suspended opts t acts) cmds))"
proof (induction cmds arbitrary: t acts)
  case Nil
  show ?case by simp
next
  case (Cons c cmds)
  show ?case
  proof (cases c)
    case Return
    then show ?thesis by (simp add: run_Completed)
  next
    case Next
    obtain ev g where p: "pull env opts (t, acts) = (ev, g)"
      by (cases "pull env opts (t, acts)")
    obtain evs g' where rn: "run env g cmds = (evs, g')"
      by (cases "run env g cmds")
    from p rn Next have tr: "fst (run env (Suspended opts t acts) (c # cmds)) = ev @ evs"
      by simp
    from pull_benign [OF assms(1) Cons.prems assms(2,3) p] have a: "Raise e \<notin> set ev" .
    from pull_progress [OF p] have "Raise e \<notin> set evs"
    proof
      assume "g = Completed"
      with rn show ?thesis by (simp add: run_Completed)
    next
      assume "\<exists>t' acts' n. g = Suspended opts t' acts' \<and> script_nodes acts = n # script_nodes acts'
            \<and> yielded ev = [transform_entry env opts n] \<and> set acts' \<subseteq> set acts"
      then obtain t' acts' where g: "g = Suspended opts t' acts'" and sub: "set acts' \<subseteq> set acts"
        by blast
      from Cons.prems sub have "\<forall>e. Throw e \<notin> set acts'" by blast
      from Cons.IH [OF this, of t'] rn g show ?thesis by simp
    qed
    with a tr show ?thesis by simp
  qed
qed

lemma run_Start_Suspended:
  assumes "addAll_setup env source options = Inr (opts, acts)"
  shows "fst (run env (Start source options) (Next # cmds)) =
           ReadLock # fst (run env (Suspended opts (JsNum 0) acts) (Next # cmds))"
  using assms by (simp split: prod.splits)

section \<open>The output sequence (C9)\<close>

lemma pull_Completed:
  assumes "pull env opts (t, acts) = (ev, Completed)"
  shows "yielded ev = [] \<and> (script_nodes acts = [] \<or> (\<exists>e. Raise e \<in> set ev))"
proof (cases "pipeline env opts (t, acts)")
  case (fields ev0 r t' acts')
  have noy: "yielded ev0 = []"
  proof -
    have "\<forall>x \<in> set ev0. stage_event x"
      using pipeline_stage_events [of _ env opts "(t, acts)"] fields by auto
    then show ?thesis
      by (induction ev0) (auto split: event.splits)
  qed
  show ?thesis
  proof (cases r)
    case (Value fl)
    with assms fields show ?thesis by (simp add: pull_def)
  next
    case Finished
    from pipeline_Finished [of env opts "(t, acts)" ev0 "(t', acts')"] fields Finished
    have "script_nodes acts = []" using importer_next_Finished by blast
    with assms fields Finished noy show ?thesis
      by (auto simp: pull_def yielded_append)
  next
    case (Rejected e)
    with assms fields noy show ?thesis
      by (auto simp: pull_def yielded_append)
  qed
qed

lemma run_Suspended_yielded:
  "yielded (fst (run env (Suspended opts t acts) cmds)) =
     map (transform_entry env opts)
       (take (length (yielded (fst (run env (Suspended opts t acts) cmds)))) (script_nodes acts))"
proof (induction cmds arbitrary: t acts)
  case Nil
  show ?case by simp
next
  case (Cons c cmds)
  show ?case
  proof (cases c)
    case Return
    then show ?thesis by (simp add: run_Completed)
  next
    case Next
    obtain ev g where p: "pull env opts (t, acts) = (ev, g)"
      by (cases "pull env opts (t, acts)")
    from pull_progress [OF p] show ?thesis
    proof
      assume g: "g = Completed"
      with p pull_Completed have "yielded ev = []" by blast
      with p g Next show ?thesis by (simp add: run_Completed)
    next
      assume "\<exists>t' acts' n. g = Suspended opts t' acts' \<and> script_nodes acts = n # script_nodes acts'
            \<and> yielded ev = [transform_entry env opts n] \<and> set acts' \<subseteq> set acts"
      then obtain t' acts' n where g: "g = Suspended opts t' acts'"
        and sn: "script_nodes acts = n # script_nodes acts'"
        and y: "yielded ev = [transform_entry env opts n]" by blast
      obtain evs g' where rn: "run env (Suspended opts t' acts') cmds = (evs, g')"
        by (cases "run env (Suspended opts t' acts') cmds")
      from Cons.IH [of t' acts'] rn
      have ih: "yielded evs = map (transform_entry env opts) (take (length (yielded evs)) (script_nodes acts'))"
        by simp
      from p g rn Next have "fst (run env (Suspended opts t acts) (c # cmds)) = ev @ evs"
        by simp
      with y sn ih show ?thesis
        by (simp add: yielded_append)
    qed
  qed
qed

lemma run_Suspended_drained:
  "Return \<notin> set cmds \<Longrightarrow> length (script_nodes acts) < count_list cmds Next \<Longrightarrow>
   \<forall>e. Raise e \<notin> set (fst (run env (Suspended opts t acts) cmds)) \<Longrightarrow>
   yielded (fst (run env (Suspended opts t acts) cmds)) =
     map (transform_entry env opts) (script_nodes acts)"
proof (induction cmds arbitrary: t acts)
  case Nil
  then show ?case by simp
next
  case (Cons c cmds)
  from Cons.prems(1) have c: "c = Next" by (cases c) auto
  obtain ev g where p: "pull env opts (t, acts) = (ev, g)"
    by (cases "pull env opts (t, acts)")
  obtain evs g' where rn: "run env g cmds = (evs, g')"
    by (cases "run env g cmds")
  from p rn c have tr: "fst (run env (Suspended opts t acts) (c # cmds)) = ev @ evs"
    by simp
  from pull_progress [OF p] show ?case
  proof
    assume g: "g = Completed"
    with p pull_Completed [of env opts t acts ev]
    have y: "yielded ev = []" and d: "script_nodes acts = [] \<or> (\<exists>e. Raise e \<in> set ev)"
      by auto
    from Cons.prems(3) tr have "\<forall>e. Raise e \<notin> set ev" by auto
    with d have "script_nodes acts = []" by blast
    moreover from rn g have "evs = []" by (simp add: run_Completed)
    ultimately show ?thesis using tr y by simp
  next
    assume "\<exists>t' acts' n. g = Suspended opts t' acts' \<and> script_nodes acts = n # script_nodes acts'
            \<and> yielded ev = [transform_entry env opts n] \<and> set acts' \<subseteq> set acts"
    then obtain t' acts' n where g: "g = Suspended opts t' acts'"
      and sn: "script_nodes acts = n # script_nodes acts'"
      and y: "yielded ev = [transform_entry env opts n]" by blast
    from Cons.prems(1) have a: "Return \<notin> set cmds" by simp
    from Cons.prems(2) sn c have b: "length (script_nodes acts') < count_list cmds Next" by simp
    from Cons.prems(3) tr rn g have "\<forall>e. Raise e \<notin> set (fst (run env (Suspended opts t' acts') cmds))"
      by auto
    from Cons.IH [OF a b this] rn g
    have "yielded evs = map (transform_entry env opts) (script_nodes acts')" by simp
    with tr y sn show ?thesis by (simp add: yielded_append)
  qed
qed

text \<open>
  C9, as amended. When the importer does not throw, a supplied progress value is a
  function whose calls return, the pin calls resolve and the preload calls do not throw,
  and the consumer pulls more often than the importer has nodes and never closes the
  sequence, \<^verbatim>\<open>addAll\<close> yields exactly one entry per node of the importer, the node's
  transform, in the importer's order. In every other run of an invocation whose setup
  succeeded the entries yielded are still the transforms of the first nodes, one entry
  per node and in order: a failure or a close ends the sequence, and nothing is
  skipped in between, duplicated or reordered.
\<close>

theorem entries_one_per_node_in_order:
  assumes "addAll_setup env source options = Inr (opts, acts)"
  shows "((\<forall>e. Throw e \<notin> set acts) \<and>
         (\<forall>prog. get opts ''progress'' = JWrappedProgress prog \<longrightarrow>
            (\<exists>f. prog = JFun f \<and> (\<forall>n. call_prog env f n = None))) \<and>
         (\<forall>c po. pin_add env c po = Resolves) \<and>
         (\<forall>c e. preload env c \<noteq> Throws e) \<and>
         Return \<notin> set cmds \<and> length (script_nodes acts) < count_list cmds Next
         \<longrightarrow> yielded (fst (run env (Start source options) cmds)) =
               map (transform_entry env opts) (script_nodes acts))
       \<and> yielded (fst (run env (Start source options) cmds)) =
           map (transform_entry env opts)
             (take (length (yielded (fst (run env (Start source options) cmds)))) (script_nodes acts))"
proof -
  have tr: "yielded (fst (run env (Start source options) cmds)) =
        yielded (fst (run env (Suspended opts (JsNum 0) acts) cmds))
      \<and> ((\<forall>e. Raise e \<notin> set (fst (run env (Start source options) cmds))) \<longleftrightarrow>
        (\<forall>e. Raise e \<notin> set (fst (run env (Suspended opts (JsNum 0) acts) cmds))))"
    if "Return \<notin> set cmds \<or> cmds \<noteq> []" "hd cmds = Next \<or> cmds = []"
  proof (cases cmds)
    case Nil
    then show ?thesis by simp
  next
    case (Cons c cs)
    with that have "c = Next" by simp
    with Cons run_Start_Suspended [OF assms, of cs] show ?thesis by simp
  qed
  have pre: "yielded (fst (run env (Start source options) cmds)) =
           map (transform_entry env opts)
             (take (length (yielded (fst (run env (Start source options) cmds)))) (script_nodes acts))"
  proof (cases cmds)
    case Nil
    then show ?thesis by simp
  next
    case (Cons c cs)
    show ?thesis
    proof (cases c)
      case Return
      with Cons show ?thesis by (simp add: run_Completed)
    next
      case Next
      with Cons tr have "yielded (fst (run env (Start source options) cmds)) =
        yielded (fst (run env (Suspended opts (JsNum 0) acts) cmds))" by simp
      with run_Suspended_yielded [of env opts "JsNum 0" acts cmds] show ?thesis by simp
    qed
  qed
  have full: "(\<forall>e. Throw e \<notin> set acts) \<and>
         (\<forall>prog. get opts ''progress'' = JWrappedProgress prog \<longrightarrow>
            (\<exists>f. prog = JFun f \<and> (\<forall>n. call_prog env f n = None))) \<and>
         (\<forall>c po. pin_add env c po = Resolves) \<and>
         (\<forall>c e. preload env c \<noteq> Throws e) \<and>
         Return \<notin> set cmds \<and> length (script_nodes acts) < count_list cmds Next
         \<longrightarrow> yielded (fst (run env (Start source options) cmds)) =
               map (transform_entry env opts) (script_nodes acts)"
  proof (intro impI, elim conjE)
    assume a: "\<forall>e. Throw e \<notin> set acts"
      and b: "\<forall>prog. get opts ''progress'' = JWrappedProgress prog \<longrightarrow>
            (\<exists>f. prog = JFun f \<and> (\<forall>n. call_prog env f n = None))"
      and c: "\<forall>c po. pin_add env c po = Resolves"
      and d: "\<forall>c e. preload env c \<noteq> Throws e"
      and r: "Return \<notin> set cmds"
      and l: "length (script_nodes acts) < count_list cmds Next"
    from l obtain c0 cs where cm: "cmds = c0 # cs" by (cases cmds) auto
    with r have "c0 = Next" by (cases c0) auto
    with cm tr have y: "yielded (fst (run env (Start source options) cmds)) =
        yielded (fst (run env (Suspended opts (JsNum 0) acts) cmds))" by simp
    have "\<forall>e. Raise e \<notin> set (fst (run env (Suspended opts (JsNum 0) acts) cmds))"
      using run_Suspended_benign [OF b c d a] by blast
    from run_Suspended_drained [OF r l this] y
    show "yielded (fst (run env (Start source options) cmds)) =
               map (transform_entry env opts) (script_nodes acts)" by simp
  qed
  from full pre show ?thesis by (rule conjI)
qed

theorem entries_one_per_node_in_order_witness:
  "yielded (fst (run example_env (Start () None) [Next, Next, Next])) =
     [\<lparr>entry_path = ''dir/a.txt'',
       entry_cid = \<lparr>cid_version = 0, cid_codec = ''dag-pb'', cid_multihash = [18, 32, 7]\<rparr>,
       entry_size = 150, entry_mode = None, entry_mtime = None\<rparr>,
      \<lparr>entry_path = ''dir'',
       entry_cid = \<lparr>cid_version = 0, cid_codec = ''dag-pb'', cid_multihash = [18, 32, 9]\<rparr>,
       entry_size = 175, entry_mode = Some 493, entry_mtime = None\<rparr>]"
proof -
  obtain opts where s: "addAll_setup example_env () None = Inr (opts, example_script)"
    using example_setup by blast
  then have f: "finalize_options example_env None = Inr opts"
    by (simp add: addAll_setup_def split: sum.splits option.splits)
  then have p: "get opts ''progress'' = JUndefined"
    and v: "get opts ''cidVersion'' = JUndefined"
    and w: "get opts ''wrapWithDirectory'' = JUndefined"
    by (auto simp: finalize_options_def example_env_def or_empty_def get_def Let_def
        example_parseChunkerString_def merge_options_def force_cid_version_def
        apply_trickle_def wrap_progress_def)
  have h: "(\<forall>e. Throw e \<notin> set example_script) \<and>
         (\<forall>prog. get opts ''progress'' = JWrappedProgress prog \<longrightarrow>
            (\<exists>f. prog = JFun f \<and> (\<forall>n. call_prog example_env f n = None))) \<and>
         (\<forall>c po. pin_add example_env c po = Resolves) \<and>
         (\<forall>c e. preload example_env c \<noteq> Throws e) \<and>
         Return \<notin> set [Next, Next, Next]
         \<and> length (script_nodes example_script) < count_list [Next, Next, Next] Next"
    by (simp add: p example_script_def example_env_def)
  from entries_one_per_node_in_order [OF s, of "[Next, Next, Next]"] h
  have "yielded (fst (run example_env (Start () None) [Next, Next, Next])) =
          map (transform_entry example_env opts) (script_nodes example_script)"
    by blast
  then show ?thesis
    by (simp add: example_script_def transform_entry_def v w Let_def example_child_def
        example_root_def truthy.simps)
qed

text \<open>
  C9 as stated fails when a stage fails: with a pinner whose promise rejects, the
  directory is produced by the importer but its pin call at line 172 throws, and only
  the file's entry is yielded for the importer's two nodes.
\<close>

theorem entries_one_per_node_in_order_counterexample:
  "length (yielded (fst (run (example_env\<lparr>pin_add := \<lambda>c po. Rejects (Error ''pin failed'')\<rparr>)
      (Start () None) [Next, Next, Next])))
   \<noteq> length (script_nodes example_script)"
  by (simp add: example_defs)

section \<open>The progress accumulator (C8)\<close>

declare ulp.simps [simp del]














lemma addAll_setup_finalize:
  "addAll_setup env source options = Inr (opts, acts) \<Longrightarrow> finalize_options env options = Inr opts"
  by (auto simp: addAll_setup_def split: sum.splits option.splits)




section \<open>The preload and pin stages\<close>

lemma set_pin_calls: "(c, po) \<in> set (pin_calls tr) \<longleftrightarrow> PinAdd c po \<in> set tr"
  by (induction tr) (auto split: event.splits)

lemma set_preload_calls: "c \<in> set (preload_calls tr) \<longleftrightarrow> Preload c \<in> set tr"
  by (induction tr) (auto split: event.splits)

lemma pin_calls_Nil: "\<forall>c po. PinAdd c po \<notin> set tr \<Longrightarrow> pin_calls tr = []"
  by (induction tr) (auto split: event.splits)

lemma preload_calls_Nil: "\<forall>c. Preload c \<notin> set tr \<Longrightarrow> preload_calls tr = []"
  by (induction tr) (auto split: event.splits)

lemma importer_next_no_preload_calls: "preload_calls (fst (importer_next env opts s)) = []"
  using importer_next_events [of _ env opts s] progress_events_only by blast

lemma pipeline_preload_calls:
  "c \<in> set (preload_calls (fst (pipeline env opts s))) \<Longrightarrow>
   \<exists>file. shouldPreload opts file \<and> c = entry_cid file"
  using importer_next_no_preload_calls [of env "importer_options opts" s]
  by (auto simp: pipeline_def pinFile_def preloadFile_def transformFile_def Let_def
      preload_calls_append
      split: prod.splits iter_result.splits call_outcome.splits if_splits)

lemma pull_events:
  assumes "pull env opts s = (ev, g)" and "x \<in> set ev"
  shows "x \<in> set (fst (pipeline env opts s)) \<or> x = ReleaseLock
       \<or> (\<exists>e. x = Yield e) \<or> (\<exists>e. x = Raise e)"
  using assms by (auto simp: pull_def split: prod.splits iter_result.splits)

lemma pull_state:
  assumes "pull env opts s = (ev, g)"
  shows "g = Completed \<or> (\<exists>t a. g = Suspended opts t a)"
  using assms by (auto simp: pull_def split: prod.splits iter_result.splits)

lemma run_Suspended_events:
  assumes "\<And>s y. y \<in> set (fst (pipeline env opts s)) \<Longrightarrow> Q y"
    and "Q ReleaseLock" and "\<And>e. Q (Yield e)" and "\<And>e. Q (Raise e)"
  shows "x \<in> set (fst (run env (Suspended opts t acts) cmds)) \<Longrightarrow> Q x"
proof (induction cmds arbitrary: t acts)
  case Nil
  then show ?case by simp
next
  case (Cons c cmds)
  show ?case
  proof (cases c)
    case Return
    with Cons.prems assms(2) show ?thesis by (simp add: run_Completed)
  next
    case Next
    obtain ev g where p: "pull env opts (t, acts) = (ev, g)"
      by (cases "pull env opts (t, acts)")
    obtain evs g' where rn: "run env g cmds = (evs, g')"
      by (cases "run env g cmds")
    from Cons.prems p rn Next have "x \<in> set ev \<or> x \<in> set evs" by simp
    then show ?thesis
    proof
      assume "x \<in> set ev"
      from pull_events [OF p this] assms show ?thesis by blast
    next
      assume x: "x \<in> set evs"
      from pull_state [OF p] show ?thesis
      proof
        assume "g = Completed"
        with rn x show ?thesis by (simp add: run_Completed)
      next
        assume "\<exists>t a. g = Suspended opts t a"
        then obtain t' a' where "g = Suspended opts t' a'" by blast
        with Cons.IH [of t' a'] rn x show ?thesis by simp
      qed
    qed
  qed
qed

lemma run_Start_events:
  assumes "\<And>opts s y. finalize_options env options = Inr opts \<Longrightarrow>
             y \<in> set (fst (pipeline env opts s)) \<Longrightarrow> Q y"
    and "Q ReadLock" and "Q ReleaseLock" and "\<And>e. Q (Yield e)" and "\<And>e. Q (Raise e)"
    and "x \<in> set (fst (run env (Start source options) cmds))"
  shows "Q x"
proof (cases cmds)
  case Nil
  with assms(6) show ?thesis by simp
next
  case (Cons c cs)
  show ?thesis
  proof (cases c)
    case Return
    with Cons assms(6) show ?thesis by (simp add: run_Completed)
  next
    case Next
    show ?thesis
    proof (cases "addAll_setup env source options")
      case (Inl e)
      with Cons Next assms(5,6) show ?thesis by (auto simp: run_Completed)
    next
      case (Inr p)
      obtain opts acts where p: "p = (opts, acts)" by (cases p)
      from Inr p have f: "finalize_options env options = Inr opts"
        by (simp add: addAll_setup_finalize)
      have "run env (Suspended opts (JsNum 0) acts) (Next # cs) =
            (case pull env opts (JsNum 0, acts) of (ev, g') \<Rightarrow>
               (case run env g' cs of (evs, g'') \<Rightarrow> (ev @ evs, g'')))"
        by simp
      with Inr p have "run env (Start source options) (Next # cs) =
            (case run env (Suspended opts (JsNum 0) acts) (Next # cs) of (tr, g) \<Rightarrow> (ReadLock # tr, g))"
        by (simp split: prod.splits)
      then have "fst (run env (Start source options) cmds) =
          ReadLock # fst (run env (Suspended opts (JsNum 0) acts) cmds)"
        using Cons Next by (simp split: prod.splits)
      with assms(6) have "x = ReadLock \<or> x \<in> set (fst (run env (Suspended opts (JsNum 0) acts) cmds))"
        by simp
      then show ?thesis
      proof
        assume "x = ReadLock"
        with assms(2) show ?thesis by simp
      next
        assume "x \<in> set (fst (run env (Suspended opts (JsNum 0) acts) cmds))"
        then show ?thesis
          using run_Suspended_events [of env opts Q x "JsNum 0" acts cmds] assms(1) [OF f] assms(3,4,5)
          by blast
      qed
    qed
  qed
qed

lemma run_no_pin_calls:
  assumes "finalize_options env options = Inr final"
    and "get final ''pin'' = JBool False \<or> get final ''onlyHash'' = JBool True"
  shows "pin_calls (fst (run env (Start source options) cmds)) = []"
proof -
  have "\<And>x. x \<in> set (fst (run env (Start source options) cmds)) \<Longrightarrow> (\<forall>c po. x \<noteq> PinAdd c po)"
  proof (rule run_Start_events [where Q = "\<lambda>x. \<forall>c po. x \<noteq> PinAdd c po"])
    fix opts s y
    assume "finalize_options env options = Inr opts"
      and y: "y \<in> set (fst (pipeline env opts s))"
    with assms(1) have o: "opts = final" by simp
    show "\<forall>c po. y \<noteq> PinAdd c po"
    proof (intro allI notI)
      fix c po
      assume "y = PinAdd c po"
      with y have "(c, po) \<in> set (pin_calls (fst (pipeline env opts s)))"
        by (simp add: set_pin_calls)
      from pipeline_pin_calls [OF this] obtain fl where "shouldPin opts fl" by blast
      with assms(2) o show False by (auto simp: shouldPin_def)
    qed
  qed simp_all
  then show ?thesis by (intro pin_calls_Nil) blast
qed

lemma run_no_preload_calls:
  assumes "finalize_options env options = Inr final"
    and "get final ''onlyHash'' = JBool True \<or> get final ''preload'' = JBool False"
  shows "preload_calls (fst (run env (Start source options) cmds)) = []"
proof -
  have "\<And>x. x \<in> set (fst (run env (Start source options) cmds)) \<Longrightarrow> (\<forall>c. x \<noteq> Preload c)"
  proof (rule run_Start_events [where Q = "\<lambda>x. \<forall>c. x \<noteq> Preload c"])
    fix opts s y
    assume "finalize_options env options = Inr opts"
      and y: "y \<in> set (fst (pipeline env opts s))"
    with assms(1) have o: "opts = final" by simp
    show "\<forall>c. y \<noteq> Preload c"
    proof (intro allI notI)
      fix c
      assume "y = Preload c"
      with y have "c \<in> set (preload_calls (fst (pipeline env opts s)))"
        by (simp add: set_preload_calls)
      from pipeline_preload_calls [OF this] obtain fl where "shouldPreload opts fl" by blast
      with assms(2) o show False by (auto simp: shouldPreload_def)
    qed
  qed simp_all
  then show ?thesis by (intro preload_calls_Nil) blast
qed

lemma pull_yield_block:
  assumes "pull env opts s = (ev, g)" and "Yield fl \<in> set ev"
  shows "\<exists>pre. ev = pre
           @ (if shouldPreload opts fl then [Preload (entry_cid fl)] else [])
           @ (if shouldPin opts fl
              then [PinAdd (entry_cid fl) \<lparr>pin_preload = False, pin_lock = False\<rparr>] else [])
           @ [Yield fl]"
proof -
  have ny: "Yield fl \<notin> set (fst (importer_next env (importer_options opts) s))"
    using importer_next_stage_events [of env "importer_options opts" s] by auto
  from assms ny show ?thesis
    by (auto simp: pull_def pipeline_def pinFile_def preloadFile_def transformFile_def Let_def
        split: prod.splits iter_result.splits call_outcome.splits if_splits)
qed

lemma run_Suspended_yield_block:
  "Yield fl \<in> set (fst (run env (Suspended opts t acts) cmds)) \<Longrightarrow>
   \<exists>pre post. fst (run env (Suspended opts t acts) cmds) = pre
           @ (if shouldPreload opts fl then [Preload (entry_cid fl)] else [])
           @ (if shouldPin opts fl
              then [PinAdd (entry_cid fl) \<lparr>pin_preload = False, pin_lock = False\<rparr>] else [])
           @ Yield fl # post"
proof (induction cmds arbitrary: t acts)
  case Nil
  then show ?case by simp
next
  case (Cons c cmds)
  let ?blk = "(if shouldPreload opts fl then [Preload (entry_cid fl)] else [])
           @ (if shouldPin opts fl
              then [PinAdd (entry_cid fl) \<lparr>pin_preload = False, pin_lock = False\<rparr>] else [])"
  show ?case
  proof (cases c)
    case Return
    with Cons.prems show ?thesis by (simp add: run_Completed)
  next
    case Next
    obtain ev g where p: "pull env opts (t, acts) = (ev, g)"
      by (cases "pull env opts (t, acts)")
    obtain evs g' where rn: "run env g cmds = (evs, g')"
      by (cases "run env g cmds")
    from p rn Next have tr: "fst (run env (Suspended opts t acts) (c # cmds)) = ev @ evs"
      by simp
    with Cons.prems have "Yield fl \<in> set ev \<or> Yield fl \<in> set evs" by simp
    then show ?thesis
    proof
      assume "Yield fl \<in> set ev"
      from pull_yield_block [OF p this] obtain pre where "ev = pre @ ?blk @ [Yield fl]" by auto
      then have "ev @ evs = pre @ ?blk @ Yield fl # evs" by simp
      with tr show ?thesis
        by (intro exI [of _ pre] exI [of _ evs]) simp
    next
      assume y: "Yield fl \<in> set evs"
      from pull_state [OF p] have "\<exists>t' a'. g = Suspended opts t' a'"
      proof
        assume "g = Completed"
        with rn y show ?thesis by (simp add: run_Completed)
      qed
      then obtain t' a' where g: "g = Suspended opts t' a'" by blast
      from Cons.IH [of t' a'] rn g y obtain pre post
        where "evs = pre @ ?blk @ Yield fl # post" by auto
      then have "ev @ evs = (ev @ pre) @ ?blk @ Yield fl # post" by simp
      with tr show ?thesis
        by (intro exI [of _ "ev @ pre"] exI [of _ post]) simp
    qed
  qed
qed

lemma run_Start_yield_block:
  assumes "addAll_setup env source options = Inr (opts, acts)"
    and "Yield fl \<in> set (fst (run env (Start source options) cmds))"
  shows "\<exists>pre post. fst (run env (Start source options) cmds) = pre
           @ (if shouldPreload opts fl then [Preload (entry_cid fl)] else [])
           @ (if shouldPin opts fl
              then [PinAdd (entry_cid fl) \<lparr>pin_preload = False, pin_lock = False\<rparr>] else [])
           @ Yield fl # post"
proof (cases cmds)
  case Nil
  with assms(2) show ?thesis by simp
next
  case (Cons c cs)
  let ?blk = "(if shouldPreload opts fl then [Preload (entry_cid fl)] else [])
           @ (if shouldPin opts fl
              then [PinAdd (entry_cid fl) \<lparr>pin_preload = False, pin_lock = False\<rparr>] else [])"
  show ?thesis
  proof (cases c)
    case Return
    with Cons assms(2) show ?thesis by (simp add: run_Completed)
  next
    case Next
    have "run env (Suspended opts (JsNum 0) acts) (Next # cs) =
            (case pull env opts (JsNum 0, acts) of (ev, g') \<Rightarrow>
               (case run env g' cs of (evs, g'') \<Rightarrow> (ev @ evs, g'')))"
      by simp
    with assms(1) have "run env (Start source options) (Next # cs) =
            (case run env (Suspended opts (JsNum 0) acts) (Next # cs) of (tr, g) \<Rightarrow> (ReadLock # tr, g))"
      by (simp split: prod.splits)
    then have tr: "fst (run env (Start source options) cmds) =
        ReadLock # fst (run env (Suspended opts (JsNum 0) acts) cmds)"
      using Cons Next by (simp split: prod.splits)
    with assms(2) have "Yield fl \<in> set (fst (run env (Suspended opts (JsNum 0) acts) cmds))" by simp
    from run_Suspended_yield_block [OF this] obtain pre post
      where "fst (run env (Suspended opts (JsNum 0) acts) cmds) = pre @ ?blk @ Yield fl # post" by auto
    with tr have "fst (run env (Start source options) cmds) = (ReadLock # pre) @ ?blk @ Yield fl # post"
      by simp
    then show ?thesis
      by (intro exI [of _ "ReadLock # pre"] exI [of _ post]) simp
  qed
qed

lemma example_finalize_pin_false:
  "\<exists>final. finalize_options example_env (Some [''pin'' \<mapsto> JBool False]) = Inr final
           \<and> get final ''pin'' = JBool False"
  by (simp add: example_defs)

lemma example_finalize_onlyHash:
  "\<exists>final. finalize_options example_env (Some [''onlyHash'' \<mapsto> JBool True]) = Inr final
           \<and> get final ''onlyHash'' = JBool True"
  by (simp add: example_defs)

subsection \<open>Pinning (C2)\<close>

text \<open>
  C2. For an entry that the pin stage receives, \<^verbatim>\<open>pin.add\<close> is called, on the entry's
  CID and with \<^verbatim>\<open>{preload: false, lock: false}\<close>, exactly when the \<^verbatim>\<open>pin\<close> option
  is absent, null or set (for a boolean \<open>truthy (JBool b) = b\<close>: true), the entry's
  path has no \<^verbatim>\<open>/\<close> and \<^verbatim>\<open>onlyHash\<close> is not set. The call is awaited: the stage
  passes the entry on only when the call has resolved, and fails with the call's error
  otherwise. When the source ends or fails, nothing is pinned. In a run of
  \<^verbatim>\<open>addAll\<close> whose options have \<^verbatim>\<open>pin: false\<close> or \<^verbatim>\<open>onlyHash: true\<close> there is no
  pin call at all, and in every run the pin call of an entry that is to be pinned
  comes immediately before the entry is yielded.
\<close>

theorem pin_stage_pins_roots:
  "(\<forall>ev file s'. source s = (ev, Value file, s') \<longrightarrow>
      (let pinned = ((nullish (get opts ''pin'') \<or> truthy (get opts ''pin''))
                       \<and> CHR ''/'' \<notin> set (entry_path file)
                       \<and> \<not> truthy (get opts ''onlyHash''));
           po = \<lparr>pin_preload = False, pin_lock = False\<rparr>
       in pinFile env opts source s =
            (ev @ (if pinned then [PinAdd (entry_cid file) po] else []),
             (if pinned
              then (case pin_add env (entry_cid file) po of
                      Resolves \<Rightarrow> Value file | Rejects e \<Rightarrow> Rejected e | Throws e \<Rightarrow> Rejected e)
              else Value file),
             s')))
   \<and> (\<forall>ev r s'. source s = (ev, r, s') \<longrightarrow> (\<forall>file. r \<noteq> Value file) \<longrightarrow>
          pinFile env opts source s = (ev, r, s'))
   \<and> (\<forall>final. finalize_options env options = Inr final \<longrightarrow>
          get final ''pin'' = JBool False \<or> get final ''onlyHash'' = JBool True \<longrightarrow>
          pin_calls (fst (run env (Start src options) cmds)) = [])
   \<and> (\<forall>final acts file. addAll_setup env src options = Inr (final, acts) \<longrightarrow>
          Yield file \<in> set (fst (run env (Start src options) cmds)) \<longrightarrow>
          (nullish (get final ''pin'') \<or> truthy (get final ''pin''))
             \<and> CHR ''/'' \<notin> set (entry_path file) \<and> \<not> truthy (get final ''onlyHash'') \<longrightarrow>
          (\<exists>pre post. fst (run env (Start src options) cmds) =
             pre @ PinAdd (entry_cid file) \<lparr>pin_preload = False, pin_lock = False\<rparr>
                 # Yield file # post))"
proof (intro conjI allI impI)
  fix ev fl s'
  assume "source s = (ev, Value fl, s')"
  then show "let pinned = ((nullish (get opts ''pin'') \<or> truthy (get opts ''pin''))
                       \<and> CHR ''/'' \<notin> set (entry_path fl)
                       \<and> \<not> truthy (get opts ''onlyHash''));
           po = \<lparr>pin_preload = False, pin_lock = False\<rparr>
       in pinFile env opts source s =
            (ev @ (if pinned then [PinAdd (entry_cid fl) po] else []),
             (if pinned
              then (case pin_add env (entry_cid fl) po of
                      Resolves \<Rightarrow> Value fl | Rejects e \<Rightarrow> Rejected e | Throws e \<Rightarrow> Rejected e)
              else Value fl),
             s')"
    by (auto simp: pinFile_def shouldPin_def isRootDir_def Let_def split: call_outcome.splits)
next
  fix ev r s'
  assume "source s = (ev, r, s')" and "\<forall>fl. r \<noteq> Value fl"
  then show "pinFile env opts source s = (ev, r, s')"
    by (cases r) (simp_all add: pinFile_def)
next
  fix final
  assume "finalize_options env options = Inr final"
    and "get final ''pin'' = JBool False \<or> get final ''onlyHash'' = JBool True"
  then show "pin_calls (fst (run env (Start src options) cmds)) = []"
    by (rule run_no_pin_calls)
next
  fix final acts fl
  assume st: "addAll_setup env src options = Inr (final, acts)"
    and y: "Yield fl \<in> set (fst (run env (Start src options) cmds))"
    and c: "(nullish (get final ''pin'') \<or> truthy (get final ''pin''))
             \<and> CHR ''/'' \<notin> set (entry_path fl) \<and> \<not> truthy (get final ''onlyHash'')"
  from c have sp: "shouldPin final fl" by (auto simp: shouldPin_def isRootDir_def)
  from run_Start_yield_block [OF st y] sp obtain pre post
    where "fst (run env (Start src options) cmds) =
        pre @ (if shouldPreload final fl then [Preload (entry_cid fl)] else [])
          @ [PinAdd (entry_cid fl) \<lparr>pin_preload = False, pin_lock = False\<rparr>] @ Yield fl # post"
    by auto
  then show "\<exists>pre post. fst (run env (Start src options) cmds) =
             pre @ PinAdd (entry_cid fl) \<lparr>pin_preload = False, pin_lock = False\<rparr>
                 # Yield fl # post"
    by (intro exI [of _ "pre @ (if shouldPreload final fl then [Preload (entry_cid fl)] else [])"]
          exI [of _ post]) simp
qed

theorem pin_stage_pins_roots_witness:
  "pinFile example_env Map.empty
      (\<lambda>s. ([], Value (transform_entry example_env Map.empty example_root), s)) (0::nat)
     = ([PinAdd (node_cid example_root) \<lparr>pin_preload = False, pin_lock = False\<rparr>],
        Value (transform_entry example_env Map.empty example_root), 0)
   \<and> pin_calls (fst (run example_env (Start () (Some [''pin'' \<mapsto> JBool False]))
        [Next, Next, Next])) = []"
proof -
  have a: "pinFile example_env Map.empty
      (\<lambda>s. ([], Value (transform_entry example_env Map.empty example_root), s)) (0::nat)
     = ([PinAdd (node_cid example_root) \<lparr>pin_preload = False, pin_lock = False\<rparr>],
        Value (transform_entry example_env Map.empty example_root), 0)"
    using pin_stage_pins_roots [of
        "\<lambda>s. ([], Value (transform_entry example_env Map.empty example_root), s)" "0::nat"
        Map.empty example_env None "()" "[]"]
    by (simp add: get_def transform_entry_def Let_def example_root_def example_env_def)
  obtain final where f: "finalize_options example_env (Some [''pin'' \<mapsto> JBool False]) = Inr final"
    and g: "get final ''pin'' = JBool False"
    using example_finalize_pin_false by blast
  from pin_stage_pins_roots [of "\<lambda>s. ([], Finished, s)" "0::nat" Map.empty example_env
      "Some [''pin'' \<mapsto> JBool False]" "()" "[Next, Next, Next]"] f g
  have b: "pin_calls (fst (run example_env (Start () (Some [''pin'' \<mapsto> JBool False]))
        [Next, Next, Next])) = []"
    by blast
  from a b show ?thesis by blast
qed

subsection \<open>Preloading (C4)\<close>

text \<open>
  C4. For an entry that the preload stage receives, \<^verbatim>\<open>preload\<close> is called on the
  entry's CID exactly when the entry is a root (its path is empty, if it has no path or
  \<^verbatim>\<open>wrapWithDirectory\<close> is set; its path has no \<^verbatim>\<open>/\<close> otherwise), \<^verbatim>\<open>onlyHash\<close>
  is not set and the \<^verbatim>\<open>preload\<close> option is not \<^verbatim>\<open>false\<close>. The result of the call is
  not awaited: the entry is passed on whether the promise resolves or rejects (only
  a call that itself throws stops it). In a run of \<^verbatim>\<open>addAll\<close> whose options have
  \<^verbatim>\<open>onlyHash: true\<close> or \<^verbatim>\<open>preload: false\<close> there is no preload call at all, and in
  every run the preload call of a root entry comes before the entry is yielded, with
  at most its pin call in between.
\<close>

theorem preload_stage_preloads_roots:
  "(\<forall>ev file s'. source s = (ev, Value file, s') \<longrightarrow>
      (let root = (if entry_path file = [] \<or> truthy (get opts ''wrapWithDirectory'')
                   then entry_path file = []
                   else CHR ''/'' \<notin> set (entry_path file));
           called = (root \<and> \<not> truthy (get opts ''onlyHash'')
                       \<and> get opts ''preload'' \<noteq> JBool False)
       in preloadFile env opts source s =
            (ev @ (if called then [Preload (entry_cid file)] else []),
             (if called
              then (case preload env (entry_cid file) of
                      Resolves \<Rightarrow> Value file | Rejects e \<Rightarrow> Value file | Throws e \<Rightarrow> Rejected e)
              else Value file),
             s')))
   \<and> (\<forall>ev r s'. source s = (ev, r, s') \<longrightarrow> (\<forall>file. r \<noteq> Value file) \<longrightarrow>
          preloadFile env opts source s = (ev, r, s'))
   \<and> (\<forall>final. finalize_options env options = Inr final \<longrightarrow>
          get final ''onlyHash'' = JBool True \<or> get final ''preload'' = JBool False \<longrightarrow>
          preload_calls (fst (run env (Start src options) cmds)) = [])
   \<and> (\<forall>final acts file. addAll_setup env src options = Inr (final, acts) \<longrightarrow>
          Yield file \<in> set (fst (run env (Start src options) cmds)) \<longrightarrow>
          (if entry_path file = [] \<or> truthy (get final ''wrapWithDirectory'')
           then entry_path file = [] else CHR ''/'' \<notin> set (entry_path file))
             \<and> \<not> truthy (get final ''onlyHash'') \<and> get final ''preload'' \<noteq> JBool False \<longrightarrow>
          (\<exists>pre mid post. fst (run env (Start src options) cmds) =
             pre @ Preload (entry_cid file) # mid @ Yield file # post
             \<and> (mid = [] \<or>
                  mid = [PinAdd (entry_cid file) \<lparr>pin_preload = False, pin_lock = False\<rparr>])))"
proof (intro conjI allI impI)
  fix ev fl s'
  assume "source s = (ev, Value fl, s')"
  then show "let root = (if entry_path fl = [] \<or> truthy (get opts ''wrapWithDirectory'')
                   then entry_path fl = []
                   else CHR ''/'' \<notin> set (entry_path fl));
           called = (root \<and> \<not> truthy (get opts ''onlyHash'')
                       \<and> get opts ''preload'' \<noteq> JBool False)
       in preloadFile env opts source s =
            (ev @ (if called then [Preload (entry_cid fl)] else []),
             (if called
              then (case preload env (entry_cid fl) of
                      Resolves \<Rightarrow> Value fl | Rejects e \<Rightarrow> Value fl | Throws e \<Rightarrow> Rejected e)
              else Value fl),
             s')"
    by (auto simp: preloadFile_def shouldPreload_def isRootFile_def Let_def
        split: call_outcome.splits)
next
  fix ev r s'
  assume "source s = (ev, r, s')" and "\<forall>fl. r \<noteq> Value fl"
  then show "preloadFile env opts source s = (ev, r, s')"
    by (cases r) (simp_all add: preloadFile_def)
next
  fix final
  assume "finalize_options env options = Inr final"
    and "get final ''onlyHash'' = JBool True \<or> get final ''preload'' = JBool False"
  then show "preload_calls (fst (run env (Start src options) cmds)) = []"
    by (rule run_no_preload_calls)
next
  fix final acts fl
  assume st: "addAll_setup env src options = Inr (final, acts)"
    and y: "Yield fl \<in> set (fst (run env (Start src options) cmds))"
    and c: "(if entry_path fl = [] \<or> truthy (get final ''wrapWithDirectory'')
           then entry_path fl = [] else CHR ''/'' \<notin> set (entry_path fl))
             \<and> \<not> truthy (get final ''onlyHash'') \<and> get final ''preload'' \<noteq> JBool False"
  let ?mid = "if shouldPin final fl
              then [PinAdd (entry_cid fl) \<lparr>pin_preload = False, pin_lock = False\<rparr>] else []"
  from c have sp: "shouldPreload final fl" by (simp add: shouldPreload_def isRootFile_def)
  from run_Start_yield_block [OF st y] sp obtain pre post
    where "fst (run env (Start src options) cmds) =
        pre @ [Preload (entry_cid fl)] @ ?mid @ Yield fl # post"
    by auto
  then show "\<exists>pre mid post. fst (run env (Start src options) cmds) =
             pre @ Preload (entry_cid fl) # mid @ Yield fl # post
             \<and> (mid = [] \<or>
                  mid = [PinAdd (entry_cid fl) \<lparr>pin_preload = False, pin_lock = False\<rparr>])"
    by (intro exI [of _ pre] exI [of _ ?mid] exI [of _ post]) simp
qed

theorem preload_stage_preloads_roots_witness:
  "preloadFile (example_env\<lparr>preload := \<lambda>c. Rejects (Error ''offline'')\<rparr>) Map.empty
      (\<lambda>s. ([], Value (transform_entry example_env Map.empty example_root), s)) (0::nat)
     = ([Preload (node_cid example_root)],
        Value (transform_entry example_env Map.empty example_root), 0)
   \<and> preload_calls (fst (run example_env (Start () (Some [''onlyHash'' \<mapsto> JBool True]))
        [Next, Next, Next])) = []"
proof -
  have a: "preloadFile (example_env\<lparr>preload := \<lambda>c. Rejects (Error ''offline'')\<rparr>) Map.empty
      (\<lambda>s. ([], Value (transform_entry example_env Map.empty example_root), s)) (0::nat)
     = ([Preload (node_cid example_root)],
        Value (transform_entry example_env Map.empty example_root), 0)"
    using preload_stage_preloads_roots [of
        "\<lambda>s. ([], Value (transform_entry example_env Map.empty example_root), s)" "0::nat"
        Map.empty "example_env\<lparr>preload := \<lambda>c. Rejects (Error ''offline'')\<rparr>" None "()" "[]"]
    by (simp add: get_def transform_entry_def Let_def example_root_def example_env_def)
  obtain final where f: "finalize_options example_env (Some [''onlyHash'' \<mapsto> JBool True]) = Inr final"
    and g: "get final ''onlyHash'' = JBool True"
    using example_finalize_onlyHash by blast
  from preload_stage_preloads_roots [of "\<lambda>s. ([], Finished, s)" "0::nat" Map.empty example_env
      "Some [''onlyHash'' \<mapsto> JBool True]" "()" "[Next, Next, Next]"] f g
  have b: "preload_calls (fst (run example_env (Start () (Some [''onlyHash'' \<mapsto> JBool True]))
        [Next, Next, Next])) = []"
    by blast
  from a b show ?thesis by blast
qed

subsection \<open>A failing preload (C6)\<close>

lemma preloadFile_no_throw:
  assumes "\<forall>c e. p c \<noteq> Throws e" and "\<forall>c e. p' c \<noteq> Throws e"
  shows "preloadFile (env\<lparr>preload := p\<rparr>) opts source
       = preloadFile (env\<lparr>preload := p'\<rparr>) opts source"
  using assms
  by (intro ext)
    (auto simp: preloadFile_def split: prod.splits iter_result.splits call_outcome.splits)

lemma transform_entry_preload_update:
  "transform_entry (env\<lparr>preload := p\<rparr>) opts fl = transform_entry env opts fl"
  by (simp add: transform_entry_def Let_def split: option.splits)

lemma transformFile_preload_update:
  "transformFile (env\<lparr>preload := p\<rparr>) opts = transformFile env opts"
  by (intro ext)
    (simp add: transformFile_def transform_entry_preload_update
      split: prod.splits iter_result.splits)

lemma pinFile_preload_update:
  "pinFile (env\<lparr>preload := p\<rparr>) opts = pinFile env opts"
  by (intro ext) (simp add: pinFile_def split: prod.splits iter_result.splits)

lemma call_progress_preload_update:
  "call_progress (env\<lparr>preload := p\<rparr>) v t b = call_progress env v t b"
  by (cases "(env, v, t, b)" rule: call_progress.cases) simp_all

lemma importer_next_preload_update:
  "importer_next (env\<lparr>preload := p\<rparr>) opts s = importer_next env opts s"
proof (induction env opts s rule: importer_next.induct)
  case (2 env opts tot b acts)
  show ?case
  proof (cases "call_progress env (get opts ''progress'') tot b")
    case (fields ev tot' r)
    show ?thesis
    proof (cases r)
      case None
      with fields have "(ev, tot', None) = call_progress env (get opts ''progress'') tot b"
        by simp
      from "2.IH" [OF this refl refl] fields None
      show ?thesis by (simp add: call_progress_preload_update)
    next
      case (Some e)
      with fields show ?thesis by (simp add: call_progress_preload_update)
    qed
  qed
qed simp_all

lemma pipeline_no_throw:
  assumes "\<forall>c e. p c \<noteq> Throws e" and "\<forall>c e. p' c \<noteq> Throws e"
  shows "pipeline (env\<lparr>preload := p\<rparr>) opts s = pipeline (env\<lparr>preload := p'\<rparr>) opts s"
proof -
  have "importer_next (env\<lparr>preload := q\<rparr>) (importer_options opts)
          = importer_next env (importer_options opts)" for q
    by (intro ext) (rule importer_next_preload_update)
  then show ?thesis
    by (simp add: pipeline_def pinFile_preload_update transformFile_preload_update
        preloadFile_no_throw [OF assms])
qed

lemma merge_options_preload_update:
  "merge_options (env\<lparr>preload := p\<rparr>) options chunker = merge_options env options chunker"
  by (simp add: merge_options_def)

lemma finalize_options_preload_update:
  "finalize_options (env\<lparr>preload := p\<rparr>) options = finalize_options env options"
  by (simp add: finalize_options_def merge_options_preload_update Let_def split: sum.splits)

lemma addAll_setup_preload_update:
  "addAll_setup (env\<lparr>preload := p\<rparr>) source options = addAll_setup env source options"
  by (simp add: addAll_setup_def finalize_options_preload_update
      split: sum.splits option.splits)

lemma pull_no_throw:
  assumes "\<forall>c e. p c \<noteq> Throws e" and "\<forall>c e. p' c \<noteq> Throws e"
  shows "pull (env\<lparr>preload := p\<rparr>) opts s = pull (env\<lparr>preload := p'\<rparr>) opts s"
  by (simp add: pull_def pipeline_no_throw [OF assms])

lemma exec_no_throw:
  assumes "\<forall>c e. p c \<noteq> Throws e" and "\<forall>c e. p' c \<noteq> Throws e"
  shows "exec (env\<lparr>preload := p\<rparr>) g c = exec (env\<lparr>preload := p'\<rparr>) g c"
proof (cases c)
  case Return
  then show ?thesis by (cases g) simp_all
next
  case Next
  then show ?thesis
    by (cases g)
      (simp_all add: addAll_setup_preload_update pull_no_throw [OF assms]
        split: sum.splits prod.splits)
qed

text \<open>
  C6, as amended. A preload call that fails through the promise it returns never
  changes a run: with two preloaders that return (their promises resolving or
  rejecting as they like), every run of \<^verbatim>\<open>addAll\<close> has the same events, entries and
  final state.
\<close>

theorem preload_rejection_ignored:
  assumes "\<forall>c e. p c \<noteq> Throws e" and "\<forall>c e. p' c \<noteq> Throws e"
  shows "run (env\<lparr>preload := p\<rparr>) g cmds = run (env\<lparr>preload := p'\<rparr>) g cmds"
proof (induction cmds arbitrary: g)
  case Nil
  show ?case by simp
next
  case (Cons c cmds)
  then show ?case by (simp add: exec_no_throw [OF assms])
qed

theorem preload_rejection_ignored_witness:
  "run (example_env\<lparr>preload := \<lambda>c. Rejects (Error ''offline'')\<rparr>) (Start () None) [Next, Next, Next]
     = run (example_env\<lparr>preload := \<lambda>c. Resolves\<rparr>) (Start () None) [Next, Next, Next]"
  using preload_rejection_ignored [of "\<lambda>c. Rejects (Error ''offline'')" "\<lambda>c. Resolves"
      example_env "Start () None" "[Next, Next, Next]"]
  by simp

text \<open>
  C6 as stated fails for a preloader whose call throws: the exception leaves the loop of
  \<^verbatim>\<open>preloadFile\<close> at line 153, the run ends with it, and the directory's entry is never
  yielded.
\<close>

theorem preload_rejection_ignored_counterexample:
  "yielded (fst (run (example_env\<lparr>preload := \<lambda>c. Throws (Error ''offline'')\<rparr>)
      (Start () None) [Next, Next, Next]))
   \<noteq> yielded (fst (run (example_env\<lparr>preload := \<lambda>c. Resolves\<rparr>)
      (Start () None) [Next, Next, Next]))"
  by (simp add: example_defs)

end
